theory Spec2Isabelle
  imports Main "HOL-Library.Multiset"
begin


section \<open>Data model: the parsed GraphQL query document\<close>

text \<open>
  The selection tree of \<^verbatim>\<open>gqlparser/v2/ast\<close> as the package \<^verbatim>\<open>complexity\<close> reads it.
  A selection is a \<^verbatim>\<open>*ast.Field\<close>, a \<^verbatim>\<open>*ast.InlineFragment\<close> or a
  \<^verbatim>\<open>*ast.FragmentSpread\<close>. The attributes that the flattening only carries through
  (for a field: Arguments, Directives, Position, Comment, Definition, ObjectDefinition) are
  one opaque component of type \<open>'a\<close>; the flattening copies every one of them from the
  same source field, so they travel together.
\<close>

datatype 'a Selection =
    Field (Alias: string) (Name: string) (FieldAttrs: 'a) (SelectionSet: "'a Selection list")
  | InlineFragment (TypeCondition: string) (InlineAttrs: 'a) (InlineSelectionSet: "'a Selection list")
  | FragmentSpread (SpreadName: string) (SpreadAttrs: 'a)

record 'a FragmentDefinition =
  FragName :: string
  FragTypeCondition :: string
  FragSelectionSet :: "'a Selection list"

record 'a OperationDefinition =
  Operation :: string
  OpName :: string
  VariableDefinitions :: "'a list"
  OpDirectives :: "'a list"
  OpSelectionSet :: "'a Selection list"
  OpPosition :: 'a
  OpComment :: 'a

record 'a QueryDocument =
  Operations :: "'a OperationDefinition list"
  Fragments :: "'a FragmentDefinition list"

fun isField :: "'a Selection \<Rightarrow> bool" where
  "isField (Field _ _ _ _) = True"
| "isField _ = False"

section \<open>The fragment resolver\<close>

text \<open>\<^verbatim>\<open>findFragmentDefinition\<close>: a linear scan that returns the first definition with
  the name, \<^verbatim>\<open>nil\<close> (here \<open>None\<close>) when there is none.\<close>

definition findFragmentDefinition :: "'a QueryDocument \<Rightarrow> string \<Rightarrow> 'a FragmentDefinition option" where
  "findFragmentDefinition doc name = find (\<lambda>frag. FragName frag = name) (Fragments doc)"

section \<open>The selection merger\<close>

text \<open>The deduplication key computed in all three branches of \<^verbatim>\<open>flattenSelectionSet\<close>:
  the name, or alias, a colon and the name when the alias is not empty.\<close>

definition fieldKey :: "'a Selection \<Rightarrow> string" where
  "fieldKey sel = (if Alias sel \<noteq> [] then Alias sel @ '':'' @ Name sel else Name sel)"

text \<open>
  \<^verbatim>\<open>fieldMap\<close> is a Go map from key to \<^verbatim>\<open>*ast.Field\<close>. Go leaves the iteration order
  of a map unspecified; the model keeps the entries in the order of their first insertion
  and reads them out in that order. \<open>mapAssign\<close> is \<^verbatim>\<open>fieldMap[key] = v\<close>.
\<close>

type_synonym 'a fieldMap = "(string \<times> 'a Selection) list"

fun mapAssign :: "'k \<Rightarrow> 'v \<Rightarrow> ('k \<times> 'v) list \<Rightarrow> ('k \<times> 'v) list" where
  "mapAssign k v [] = [(k, v)]"
| "mapAssign k v ((k', v') # m) = (if k' = k then (k, v) # m else (k', v') # mapAssign k v m)"

text \<open>\<^verbatim>\<open>existing.SelectionSet = ss\<close>: every field of the map is an object allocated by
  the flattening itself, so the assignment is seen through the map only.\<close>

definition setSelectionSet :: "'a Selection \<Rightarrow> 'a Selection list \<Rightarrow> 'a Selection" where
  "setSelectionSet existing ss = Field (Alias existing) (Name existing) (FieldAttrs existing) ss"

text \<open>A \<^verbatim>\<open>for ... range\<close> loop whose body may fail to return.\<close>

fun foldM :: "('s \<Rightarrow> 'x \<Rightarrow> 's option) \<Rightarrow> 's \<Rightarrow> 'x list \<Rightarrow> 's option" where
  "foldM f s [] = Some s"
| "foldM f s (x # xs) = (case f s x of None \<Rightarrow> None | Some s' \<Rightarrow> foldM f s' xs)"

text \<open>The branch \<^verbatim>\<open>case *ast.Field\<close>; \<open>rec\<close> is the recursive call.\<close>

definition caseField ::
  "('a Selection list \<Rightarrow> 'a Selection list option) \<Rightarrow> 'a fieldMap \<Rightarrow> 'a Selection \<Rightarrow> 'a fieldMap option" where
  "caseField rec fieldMap sel =
     (let key = fieldKey sel in
      case map_of fieldMap key of
        Some existing \<Rightarrow>
          (case rec (SelectionSet existing @ SelectionSet sel) of
             None \<Rightarrow> None
           | Some merged \<Rightarrow> Some (mapAssign key (setSelectionSet existing merged) fieldMap))
      | None \<Rightarrow>
          (case rec (SelectionSet sel) of
             None \<Rightarrow> None
           | Some ss \<Rightarrow>
               Some (mapAssign key (Field (Alias sel) (Name sel) (FieldAttrs sel) ss) fieldMap)))"

text \<open>The body of the loop over \<^verbatim>\<open>fragmentSelections\<close>, the same in the branches of
  the inline fragment and of the fragment spread.\<close>

definition foldFragmentSelection ::
  "('a Selection list \<Rightarrow> 'a Selection list option) \<Rightarrow> 'a fieldMap \<Rightarrow> 'a Selection \<Rightarrow> 'a fieldMap option" where
  "foldFragmentSelection rec fieldMap fragSel =
     (if isField fragSel then
        (let key = fieldKey fragSel in
         case map_of fieldMap key of
           Some existing \<Rightarrow>
             (case rec (SelectionSet existing @ SelectionSet fragSel) of
                None \<Rightarrow> None
              | Some merged \<Rightarrow> Some (mapAssign key (setSelectionSet existing merged) fieldMap))
         | None \<Rightarrow> Some (mapAssign key fragSel fieldMap))
      else Some fieldMap)"

text \<open>One iteration of the loop over the selection set.\<close>

definition selectionStep ::
  "('a Selection list \<Rightarrow> 'a Selection list option) \<Rightarrow> 'a QueryDocument \<Rightarrow>
     'a fieldMap \<Rightarrow> 'a Selection \<Rightarrow> 'a fieldMap option" where
  "selectionStep rec doc fieldMap selection =
     (case selection of
        Field _ _ _ _ \<Rightarrow> caseField rec fieldMap selection
      | InlineFragment _ _ ss \<Rightarrow>
          (case rec ss of
             None \<Rightarrow> None
           | Some fragmentSelections \<Rightarrow> foldM (foldFragmentSelection rec) fieldMap fragmentSelections)
      | FragmentSpread name _ \<Rightarrow>
          (case findFragmentDefinition doc name of
             None \<Rightarrow> Some fieldMap
           | Some fragDef \<Rightarrow>
               (case rec (FragSelectionSet fragDef) of
                  None \<Rightarrow> None
                | Some fragmentSelections \<Rightarrow>
                    foldM (foldFragmentSelection rec) fieldMap fragmentSelections)))"

text \<open>
  \<^verbatim>\<open>flattenSelectionSet\<close>. The Go function recurses through the fragment definitions
  and has no guard against a cycle, so it need not return: the first argument bounds the
  depth of the recursion, and \<open>None\<close> says that the bound was reached.
\<close>

primrec flattenSelectionSet ::
  "nat \<Rightarrow> 'a Selection list \<Rightarrow> 'a QueryDocument \<Rightarrow> 'a Selection list option" where
  "flattenSelectionSet 0 selectionSet doc = None"
| "flattenSelectionSet (Suc n) selectionSet doc =
     map_option (map snd)
       (foldM (selectionStep (\<lambda>ss. flattenSelectionSet n ss doc) doc) [] selectionSet)"

section \<open>The operation flattener\<close>

text \<open>\<^verbatim>\<open>flatten\<close> builds a new operation: kind, name, position and comment are those of
  the input, the variable definitions and the directives are copied into new slices of the
  same length, and the selection set is the flattened one. It has no error result.\<close>

definition flatten :: "nat \<Rightarrow> 'a QueryDocument \<Rightarrow> 'a OperationDefinition \<Rightarrow> 'a OperationDefinition option" where
  "flatten n doc op =
     (case flattenSelectionSet n (OpSelectionSet op) doc of
        None \<Rightarrow> None
      | Some ss \<Rightarrow>
          Some \<lparr>Operation = Operation op, OpName = OpName op,
                VariableDefinitions = VariableDefinitions op, OpDirectives = OpDirectives op,
                OpSelectionSet = ss, OpPosition = OpPosition op, OpComment = OpComment op\<rparr>)"

section \<open>The shape of a flattened selection set\<close>

text \<open>A selection set is flat when it holds fields only, no two of them with the same
  deduplication key, and the selection set of every field is flat again.\<close>

fun flatSel :: "'a Selection \<Rightarrow> bool" where
  "flatSel (Field a n r ss) = (list_all flatSel ss \<and> distinct (map fieldKey ss))"
| "flatSel (InlineFragment t r ss) = False"
| "flatSel (FragmentSpread n r) = False"

definition flat :: "'a Selection list \<Rightarrow> bool" where
  "flat ss = (list_all flatSel ss \<and> distinct (map fieldKey ss))"

definition keyedMap :: "('a Selection list \<Rightarrow> bool) \<Rightarrow> 'a fieldMap \<Rightarrow> bool" where
  "keyedMap C m =
     (distinct (map fst m) \<and>
      (\<forall>(k, v) \<in> set m. isField v \<and> fieldKey v = k \<and> C (SelectionSet v)))"


section \<open>Notions used to state the properties\<close>

text \<open>The selection set that a fragment stands for: the nested selection set of an inline
  fragment, the selection set of the definition that a spread resolves to.\<close>

definition fragmentContents :: "'a QueryDocument \<Rightarrow> 'a Selection \<Rightarrow> 'a Selection list option" where
  "fragmentContents doc sel =
     (case sel of
        Field _ _ _ _ \<Rightarrow> None
      | InlineFragment _ _ ss \<Rightarrow> Some ss
      | FragmentSpread name _ \<Rightarrow> map_option FragSelectionSet (findFragmentDefinition doc name))"


text \<open>The response key as the specification defines it: the alias if present, otherwise
  the field name. The code does not compute it; it is here to compare the deduplication key
  of the code with.\<close>

definition responseKey :: "'a Selection \<Rightarrow> string" where
  "responseKey sel = (if Alias sel \<noteq> [] then Alias sel else Name sel)"

text \<open>Two inputs differ only in the type conditions of their inline fragments when they
  are equal once every type condition is replaced by the empty string, in the selection
  set and in the selection sets of the fragment definitions of the document.\<close>

fun eraseTypeConditions :: "'a Selection \<Rightarrow> 'a Selection" where
  "eraseTypeConditions (Field a n r ss) = Field a n r (map eraseTypeConditions ss)"
| "eraseTypeConditions (InlineFragment t r ss) = InlineFragment [] r (map eraseTypeConditions ss)"
| "eraseTypeConditions (FragmentSpread n r) = FragmentSpread n r"

definition eraseFragment :: "'a FragmentDefinition \<Rightarrow> 'a FragmentDefinition" where
  "eraseFragment fd = fd\<lparr>FragSelectionSet := map eraseTypeConditions (FragSelectionSet fd)\<rparr>"


text \<open>The nested selections that the fields of \<open>S\<close> with the key \<open>k\<close> bring along, in
  the order of the fields.\<close>

definition childrenOfKey :: "string \<Rightarrow> 'a Selection list \<Rightarrow> 'a Selection list" where
  "childrenOfKey k S = concat (map SelectionSet (filter (\<lambda>g. fieldKey g = k) S))"


text \<open>
  The fields that one selection contributes to the level it stands at: a field is itself;
  an inline fragment or a spread that resolves contributes the fields that flattening its
  contents returns; a spread that does not resolve contributes nothing. \<open>siblingFields\<close>
  is the sequence of all contributors of a selection set, in the order of the loop.
\<close>

definition contribution :: "nat \<Rightarrow> 'a QueryDocument \<Rightarrow> 'a Selection \<Rightarrow> 'a Selection list option" where
  "contribution n doc sel =
     (if isField sel then Some [sel]
      else case fragmentContents doc sel of
             None \<Rightarrow> Some []
           | Some body \<Rightarrow> flattenSelectionSet n body doc)"

fun siblingFields :: "nat \<Rightarrow> 'a QueryDocument \<Rightarrow> 'a Selection list \<Rightarrow> 'a Selection list option" where
  "siblingFields n doc [] = Some []"
| "siblingFields n doc (sel # S) =
     (case contribution n doc sel of
        None \<Rightarrow> None
      | Some c \<Rightarrow> (case siblingFields n doc S of None \<Rightarrow> None | Some E \<Rightarrow> Some (c @ E)))"

section \<open>The fragment reference graph\<close>

text \<open>
  The names of the spreads that occur in a selection, at any depth, and the reference graph
  of a document: \<open>(b, a)\<close> is an edge when the definition that the name \<open>a\<close> resolves
  to contains a spread of \<open>b\<close>.
\<close>

fun spreadNames :: "'a Selection \<Rightarrow> string list" where
  "spreadNames (Field a n r ss) = concat (map spreadNames ss)"
| "spreadNames (InlineFragment t r ss) = concat (map spreadNames ss)"
| "spreadNames (FragmentSpread n r) = [n]"

definition fragmentRefs :: "'a QueryDocument \<Rightarrow> (string \<times> string) set" where
  "fragmentRefs doc =
     {(b, a). \<exists>fd. findFragmentDefinition doc a = Some fd \<and>
                    b \<in> set (concat (map spreadNames (FragSelectionSet fd)))}"

text \<open>
  \<open>boundedBy h doc S\<close>: expanding the spreads of \<open>S\<close> through \<open>doc\<close> gives a tree of
  height at most \<open>h\<close>. It measures the depth of the recursion of the flattening.
\<close>

definition boundedSel :: "('a Selection list \<Rightarrow> bool) \<Rightarrow> 'a QueryDocument \<Rightarrow> 'a Selection \<Rightarrow> bool" where
  "boundedSel below doc sel =
     (case sel of
         Field _ _ _ ss \<Rightarrow> below ss
       | InlineFragment _ _ ss \<Rightarrow> below ss
       | FragmentSpread name _ \<Rightarrow>
           (case findFragmentDefinition doc name of
              None \<Rightarrow> True
            | Some fragDef \<Rightarrow> below (FragSelectionSet fragDef)))"

primrec boundedBy :: "nat \<Rightarrow> 'a QueryDocument \<Rightarrow> 'a Selection list \<Rightarrow> bool" where
  "boundedBy 0 doc S = (S = [])"
| "boundedBy (Suc h) doc S = list_all (boundedSel (boundedBy h doc) doc) S"


section \<open>The iteration order of the map\<close>

datatype 'a shape =
    FieldShape string string 'a "'a shape multiset"
  | InlineFragmentShape string 'a "'a shape multiset"
  | FragmentSpreadShape string 'a

fun shapeOf :: "'a Selection \<Rightarrow> 'a shape" where
  "shapeOf (Field a n r ss) = FieldShape a n r (mset (map shapeOf ss))"
| "shapeOf (InlineFragment t r ss) = InlineFragmentShape t r (mset (map shapeOf ss))"
| "shapeOf (FragmentSpread n r) = FragmentSpreadShape n r"

definition sameUpToOrder :: "'a Selection list \<Rightarrow> 'a Selection list \<Rightarrow> bool" where
  "sameUpToOrder X Y = (mset (map shapeOf X) = mset (map shapeOf Y))"

definition rangeOrder :: "('a Selection list \<Rightarrow> 'a Selection list \<Rightarrow> 'a Selection list) \<Rightarrow> bool" where
  "rangeOrder ord = (\<forall>S xs. mset (ord S xs) = mset xs)"

primrec flattenSelectionSetOrd ::
  "('a Selection list \<Rightarrow> 'a Selection list \<Rightarrow> 'a Selection list) \<Rightarrow> nat \<Rightarrow> 'a Selection list \<Rightarrow>
     'a QueryDocument \<Rightarrow> 'a Selection list option" where
  "flattenSelectionSetOrd ord 0 selectionSet doc = None"
| "flattenSelectionSetOrd ord (Suc n) selectionSet doc =
     map_option (\<lambda>fieldMap. ord selectionSet (map snd fieldMap))
       (foldM (selectionStep (\<lambda>ss. flattenSelectionSetOrd ord n ss doc) doc) [] selectionSet)"

definition keyed :: "'a Selection list \<Rightarrow> 'a fieldMap" where
  "keyed Z = map (\<lambda>f. (fieldKey f, f)) Z"

definition simMap :: "'a fieldMap \<Rightarrow> 'a fieldMap \<Rightarrow> bool" where
  "simMap m' m = (\<forall>k. rel_option (\<lambda>e' e. shapeOf e' = shapeOf e) (map_of m' k) (map_of m k))"

definition mergeItem ::
  "('a Selection list \<Rightarrow> 'a Selection list option) \<Rightarrow> ('a Selection \<Rightarrow> 'a Selection option) \<Rightarrow>
     'a fieldMap \<Rightarrow> 'a Selection \<Rightarrow> 'a fieldMap option" where
  "mergeItem rec new m x =
     (case map_of m (fieldKey x) of
        Some e \<Rightarrow> map_option (\<lambda>c. mapAssign (fieldKey x) (setSelectionSet e c) m)
                    (rec (SelectionSet e @ SelectionSet x))
      | None \<Rightarrow> map_option (\<lambda>v. mapAssign (fieldKey x) v m) (new x))"

definition mergeEntry ::
  "('a Selection list \<Rightarrow> 'a Selection list option) \<Rightarrow> ('a Selection \<Rightarrow> 'a Selection option) \<Rightarrow>
     'a Selection option \<Rightarrow> 'a Selection option \<Rightarrow> 'a Selection option option" where
  "mergeEntry rec new eo zo =
     (case zo of
        None \<Rightarrow> Some eo
      | Some z \<Rightarrow>
          (case eo of
             None \<Rightarrow> map_option Some (new z)
           | Some e \<Rightarrow> map_option (\<lambda>c. Some (setSelectionSet e c)) (rec (SelectionSet e @ SelectionSet z))))"

definition copyField ::
  "('a Selection list \<Rightarrow> 'a Selection list option) \<Rightarrow> 'a Selection \<Rightarrow> 'a Selection option" where
  "copyField rec x = map_option (Field (Alias x) (Name x) (FieldAttrs x)) (rec (SelectionSet x))"

inductive relInputs :: "'a Selection list \<Rightarrow> 'a Selection list \<Rightarrow> bool" where
  relNil: "relInputs [] []"
| relSame: "relInputs W' W \<Longrightarrow> relInputs (v # W') (v # W)"
| relFlat: "flat Y' \<Longrightarrow> flat Y \<Longrightarrow> sameUpToOrder Y' Y \<Longrightarrow> relInputs W' W \<Longrightarrow>
            relInputs (Y' @ W') (Y @ W)"

definition itemRel :: "'a Selection \<Rightarrow> 'a Selection \<Rightarrow> bool" where
  "itemRel z' z =
     (isField z \<and> shapeOf z' = shapeOf z \<and> relInputs (SelectionSet z') (SelectionSet z))"

definition entryRel :: "'a Selection \<Rightarrow> 'a Selection \<Rightarrow> bool" where
  "entryRel e' e =
     (isField e \<and> shapeOf e' = shapeOf e \<and> flat (SelectionSet e') \<and> flat (SelectionSet e))"

definition recSim ::
  "('a Selection list \<Rightarrow> 'a Selection list option) \<Rightarrow> ('a Selection list \<Rightarrow> 'a Selection list option) \<Rightarrow> bool" where
  "recSim rec' rec = (\<forall>A' A. relInputs A' A \<longrightarrow> rel_option sameUpToOrder (rec' A') (rec A))"

section \<open>The document analyser\<close>

text \<open>
  The complexity function that \<^verbatim>\<open>AnalyseDocument\<close> hands to the scorer: whatever the type,
  the field and the arguments are, the cost is the complexity of the children plus one, and
  the cost is accepted.
\<close>

definition ComplexityFunc :: "'a \<Rightarrow> string \<Rightarrow> int \<Rightarrow> int \<times> bool" where
  "ComplexityFunc typeAndArgs fieldName childComplexity = (childComplexity + 1, True)"

text \<open>
  Modelled from the spec: the complexity scorer \<^verbatim>\<open>complexity.Calculate\<close> of gqlgen, which
  is not part of this repository. The spec describes it as an integer cost assigned to the
  selection tree of an operation by summing a per-field cost rule bottom-up, and says that
  the raw complexity counts the fields of each fragment spread separately. So a field costs
  what the cost rule gives for the complexity of its children, an inline fragment costs the
  complexity of its selection set, a spread costs the complexity of the selection set of
  its definition (nothing when there is none), and a selection set costs the sum of its
  selections; the empty selection set costs 0. The first argument bounds the depth of the
  recursion, as for the flattening; the cost is an unbounded integer.
\<close>

definition sumM :: "('x \<Rightarrow> int option) \<Rightarrow> 'x list \<Rightarrow> int option" where
  "sumM f xs = foldM (\<lambda>acc x. case f x of None \<Rightarrow> None | Some c \<Rightarrow> Some (acc + c)) 0 xs"

definition selectionComplexity ::
  "('a Selection list \<Rightarrow> int option) \<Rightarrow> 'a QueryDocument \<Rightarrow> 'a Selection \<Rightarrow> int option" where
  "selectionComplexity rec doc sel =
     (case sel of
        Field _ name attrs ss \<Rightarrow>
          (case rec ss of
             None \<Rightarrow> None
           | Some childComplexity \<Rightarrow> Some (fst (ComplexityFunc attrs name childComplexity)))
      | InlineFragment _ _ ss \<Rightarrow> rec ss
      | FragmentSpread name _ \<Rightarrow>
          (case findFragmentDefinition doc name of
             None \<Rightarrow> Some 0
           | Some fragDef \<Rightarrow> rec (FragSelectionSet fragDef)))"

primrec selectionSetComplexity :: "nat \<Rightarrow> 'a QueryDocument \<Rightarrow> 'a Selection list \<Rightarrow> int option" where
  "selectionSetComplexity 0 doc selectionSet = None"
| "selectionSetComplexity (Suc n) doc selectionSet =
     sumM (selectionComplexity (selectionSetComplexity n doc) doc) selectionSet"

definition Calculate :: "nat \<Rightarrow> 'a QueryDocument \<Rightarrow> 'a OperationDefinition \<Rightarrow> int option" where
  "Calculate n doc op = selectionSetComplexity n doc (OpSelectionSet op)"

text \<open>
  \<^verbatim>\<open>AnalyseDocument\<close>. The validation of the document against the schema is done by the
  validator of gqlparser; it is the parameter \<open>validate\<close>, true when the validator returns
  no error. When it fails the analysis returns the error and no result. Otherwise every
  operation of the document, in order, is flattened and scored twice. The loop stops
  without a value when a flattening or a scoring does not return.
\<close>

datatype error = ValidationError

record DocumentAnalysis =
  OperationName :: string
  Complexity :: int
  FlattenedComplexity :: int

definition analyseOperation ::
  "nat \<Rightarrow> 'a QueryDocument \<Rightarrow> 'a OperationDefinition \<Rightarrow> DocumentAnalysis option" where
  "analyseOperation n queryDoc op =
     (case flatten n queryDoc op of
        None \<Rightarrow> None
      | Some flatOp \<Rightarrow>
          (case Calculate n queryDoc op of
             None \<Rightarrow> None
           | Some c \<Rightarrow>
               (case Calculate n queryDoc flatOp of
                  None \<Rightarrow> None
                | Some fc \<Rightarrow>
                    Some \<lparr>OperationName = OpName op, Complexity = c, FlattenedComplexity = fc\<rparr>)))"

definition AnalyseDocument ::
  "nat \<Rightarrow> ('a QueryDocument \<Rightarrow> bool) \<Rightarrow> 'a QueryDocument \<Rightarrow> (error + DocumentAnalysis list) option" where
  "AnalyseDocument n validate queryDoc =
     (if \<not> validate queryDoc then Some (Inl ValidationError)
      else case foldM (\<lambda>documentResults op.
                  case analyseOperation n queryDoc op of
                    None \<Rightarrow> None
                  | Some res \<Rightarrow> Some (documentResults @ [res])) [] (Operations queryDoc) of
             None \<Rightarrow> None
           | Some documentResults \<Rightarrow> Some (Inr documentResults))"

section \<open>The reference fixture\<close>

text \<open>
  The document of \<^verbatim>\<open>TestAnalyseDocument\<close>: the query \<^verbatim>\<open>GetOrder\<close> selects
  \<^verbatim>\<open>user(id: $id)\<close> with the two spreads \<^verbatim>\<open>...HeaderFragment\<close> and
  \<^verbatim>\<open>...UserFragment\<close>, and both fragments select \<^verbatim>\<open>id\<close> and \<^verbatim>\<open>name\<close> on
  \<^verbatim>\<open>User\<close>. The parser stores the name of a field as its alias when the query gives
  none, so every field of a parsed document has a non-empty alias.
\<close>

definition leaf :: "string \<Rightarrow> unit Selection" where
  "leaf n = Field n n () []"

definition refFragments :: "unit FragmentDefinition list" where
  "refFragments =
     [\<lparr>FragName = ''HeaderFragment'', FragTypeCondition = ''User'',
        FragSelectionSet = [leaf ''id'', leaf ''name'']\<rparr>,
      \<lparr>FragName = ''UserFragment'', FragTypeCondition = ''User'',
        FragSelectionSet = [leaf ''id'', leaf ''name'']\<rparr>]"

definition refSelectionSet :: "unit Selection list" where
  "refSelectionSet =
     [Field ''user'' ''user'' ()
        [FragmentSpread ''HeaderFragment'' (), FragmentSpread ''UserFragment'' ()]]"

definition refOperation :: "unit OperationDefinition" where
  "refOperation =
     \<lparr>Operation = ''query'', OpName = ''GetOrder'', VariableDefinitions = [()],
      OpDirectives = [], OpSelectionSet = refSelectionSet, OpPosition = (), OpComment = ()\<rparr>"

definition refDocument :: "unit QueryDocument" where
  "refDocument = \<lparr>Operations = [refOperation], Fragments = refFragments\<rparr>"

definition refFlattened :: "unit Selection list" where
  "refFlattened = [Field ''user'' ''user'' () [leaf ''id'', leaf ''name'']]"

text \<open>Two fields that share the alias \<^verbatim>\<open>a\<close> and select different schema fields.\<close>

definition aliasX :: "unit Selection" where
  "aliasX = Field ''a'' ''x'' () [leaf ''p'']"

definition aliasY :: "unit Selection" where
  "aliasY = Field ''a'' ''y'' () [leaf ''q'']"

text \<open>The same on two object types: \<^verbatim>\<open>... on Dog { n: barkVolume } ... on Cat { n: meowVolume }\<close>.\<close>

definition petSelectionSet :: "unit Selection list" where
  "petSelectionSet =
     [InlineFragment ''Dog'' () [Field ''n'' ''barkVolume'' () []],
      InlineFragment ''Cat'' () [Field ''n'' ''meowVolume'' () []]]"

definition petFlattened :: "unit Selection list" where
  "petFlattened = [Field ''n'' ''barkVolume'' () [], Field ''n'' ''meowVolume'' () []]"

text \<open>Two sibling fields with the same alias and name and different children.\<close>

definition userA :: "unit Selection" where
  "userA = Field ''u'' ''user'' () [leaf ''id'']"

definition userB :: "unit Selection" where
  "userB = Field ''u'' ''user'' () [leaf ''name'', leaf ''id'']"

definition userMerged :: "unit Selection" where
  "userMerged = Field ''u'' ''user'' () [leaf ''id'', leaf ''name'']"

text \<open>Two documents and two selection sets that differ in type conditions only.\<close>

definition dogDocument :: "unit QueryDocument" where
  "dogDocument =
     \<lparr>Operations = [],
      Fragments = [\<lparr>FragName = ''PetName'', FragTypeCondition = ''Pet'',
                    FragSelectionSet = [InlineFragment ''Dog'' () [leaf ''name'']]\<rparr>]\<rparr>"

definition catDocument :: "unit QueryDocument" where
  "catDocument =
     \<lparr>Operations = [],
      Fragments = [\<lparr>FragName = ''PetName'', FragTypeCondition = ''Pet'',
                    FragSelectionSet = [InlineFragment ''Cat'' () [leaf ''name'']]\<rparr>]\<rparr>"

definition dogSelectionSet :: "unit Selection list" where
  "dogSelectionSet =
     [InlineFragment ''Dog'' () [leaf ''id''], FragmentSpread ''PetName'' (), leaf ''id'']"

definition catSelectionSet :: "unit Selection list" where
  "catSelectionSet =
     [InlineFragment ''Cat'' () [leaf ''id''], FragmentSpread ''PetName'' (), leaf ''id'']"

text \<open>A document whose fragment \<^verbatim>\<open>A\<close> spreads \<^verbatim>\<open>B\<close>, and one whose fragment
  \<^verbatim>\<open>Loop\<close> spreads itself.\<close>

definition chainDocument :: "unit QueryDocument" where
  "chainDocument =
     \<lparr>Operations = [],
      Fragments = [\<lparr>FragName = ''A'', FragTypeCondition = ''User'',
                    FragSelectionSet = [FragmentSpread ''B'' (), leaf ''id'']\<rparr>,
                   \<lparr>FragName = ''B'', FragTypeCondition = ''User'',
                    FragSelectionSet = [leaf ''name'']\<rparr>]\<rparr>"

definition loopDocument :: "unit QueryDocument" where
  "loopDocument =
     \<lparr>Operations = [],
      Fragments = [\<lparr>FragName = ''Loop'', FragTypeCondition = ''User'',
                    FragSelectionSet = [FragmentSpread ''Loop'' ()]\<rparr>]\<rparr>"

text \<open>The same tree with every alias empty, as a hand-built tree may have it.\<close>

fun dropAlias :: "'a Selection \<Rightarrow> 'a Selection" where
  "dropAlias (Field a n r ss) = Field [] n r (map dropAlias ss)"
| "dropAlias (InlineFragment t r ss) = InlineFragment t r (map dropAlias ss)"
| "dropAlias (FragmentSpread n r) = FragmentSpread n r"

definition bareDocument :: "unit QueryDocument" where
  "bareDocument =
     \<lparr>Operations = [refOperation\<lparr>OpSelectionSet := map dropAlias refSelectionSet\<rparr>],
      Fragments = map (\<lambda>fd. fd\<lparr>FragSelectionSet := map dropAlias (FragSelectionSet fd)\<rparr>) refFragments\<rparr>"

section \<open>The flattening on the heap\<close>

text \<open>
  The Go code works on pointers: a selection set is a slice of pointers to fields, inline
  fragments and spreads, the map holds pointers to fields, and the assignment
  \<^verbatim>\<open>existing.SelectionSet = ...\<close> writes into the object that the map points to. To say
  what the flattening changes, this section models it once more, on an explicit heap. An
  address is an index into the list of all objects; allocating appends an object. The code
  appends only to slices that it has made itself (\<^verbatim>\<open>mergedSelectionSet\<close>,
  \<^verbatim>\<open>flattened\<close>), so no backing array that an object holds is written, and the slice in
  an object is modelled by the list of its elements. The attributes that are carried through
  are one component of type \<open>'a\<close>, as before.
\<close>

type_synonym addr = nat

datatype 'a object =
    FieldObj string string 'a "addr list"
  | InlineFragmentObj string 'a "addr list"
  | FragmentSpreadObj string 'a
  | FragmentDefinitionObj string string "addr list"
  | OperationDefinitionObj string string "'a list" "'a list" "addr list" 'a 'a
  | QueryDocumentObj "addr list" "addr list"

type_synonym 'a heap = "'a object list"

text \<open>Following a pointer; \<open>None\<close> for a pointer that is nil or points nowhere.\<close>

definition deref :: "'a heap \<Rightarrow> addr \<Rightarrow> 'a object option" where
  "deref h a = (if a < length h then Some (h ! a) else None)"

definition keyOf :: "string \<Rightarrow> string \<Rightarrow> string" where
  "keyOf al name = (if al \<noteq> [] then al @ '':'' @ name else name)"

text \<open>\<^verbatim>\<open>findFragmentDefinition\<close>: the address of the first definition with the name.\<close>

definition findFragmentDefinitionH :: "'a heap \<Rightarrow> addr \<Rightarrow> string \<Rightarrow> addr option" where
  "findFragmentDefinitionH h doc name =
     (case deref h doc of
        Some (QueryDocumentObj ops frags) \<Rightarrow>
          find (\<lambda>frag. case deref h frag of
                         Some (FragmentDefinitionObj n _ _) \<Rightarrow> n = name
                       | _ \<Rightarrow> False) frags
      | _ \<Rightarrow> None)"

text \<open>
  A loop over a slice that threads the heap. A computation returns the heap it has reached
  together with its result; the result is \<open>None\<close> when it does not return normally (the
  bound on the recursion is reached, or a pointer that must be valid is not), and then the
  heap is the one of that moment.
\<close>

fun foldH :: "('s \<Rightarrow> 'h \<Rightarrow> 'x \<Rightarrow> 's option \<times> 'h) \<Rightarrow> 's \<Rightarrow> 'h \<Rightarrow> 'x list \<Rightarrow> 's option \<times> 'h" where
  "foldH f s h [] = (Some s, h)"
| "foldH f s h (x # xs) =
     (case f s h x of
        (None, h') \<Rightarrow> (None, h')
      | (Some s', h') \<Rightarrow> foldH f s' h' xs)"

text \<open>
  The three lines that merge into an entry that exists: the merged selection set is built
  from the selection set that \<^verbatim>\<open>existing\<close> has now and the one that comes in, it is
  flattened, and the result is assigned to \<^verbatim>\<open>existing.SelectionSet\<close>.
\<close>

definition mergeExisting ::
  "('a heap \<Rightarrow> addr list \<Rightarrow> addr list option \<times> 'a heap) \<Rightarrow> (string \<times> addr) list \<Rightarrow> 'a heap \<Rightarrow>
     addr \<Rightarrow> addr list \<Rightarrow> (string \<times> addr) list option \<times> 'a heap" where
  "mergeExisting rec fieldMap h existing ss =
     (case deref h existing of
        Some (FieldObj _ _ _ ess) \<Rightarrow>
          (case rec h (ess @ ss) of
             (None, h1) \<Rightarrow> (None, h1)
           | (Some merged, h1) \<Rightarrow>
               (case deref h1 existing of
                  Some (FieldObj ea en eat _) \<Rightarrow>
                    (Some fieldMap, h1[existing := FieldObj ea en eat merged])
                | _ \<Rightarrow> (None, h1)))
      | _ \<Rightarrow> (None, h))"

text \<open>The branch \<^verbatim>\<open>case *ast.Field\<close>: the new field is a new object.\<close>

definition caseFieldH ::
  "('a heap \<Rightarrow> addr list \<Rightarrow> addr list option \<times> 'a heap) \<Rightarrow> (string \<times> addr) list \<Rightarrow> 'a heap \<Rightarrow>
     string \<Rightarrow> string \<Rightarrow> 'a \<Rightarrow> addr list \<Rightarrow> (string \<times> addr) list option \<times> 'a heap" where
  "caseFieldH rec fieldMap h al name attrs ss =
     (let key = keyOf al name in
      case map_of fieldMap key of
        Some existing \<Rightarrow> mergeExisting rec fieldMap h existing ss
      | None \<Rightarrow>
          (case rec h ss of
             (None, h1) \<Rightarrow> (None, h1)
           | (Some fl, h1) \<Rightarrow>
               (Some (mapAssign key (length h1) fieldMap), h1 @ [FieldObj al name attrs fl])))"

text \<open>The body of the loop over \<^verbatim>\<open>fragmentSelections\<close>: the map gets the pointer that
  the slice holds.\<close>

definition foldFragmentSelectionH ::
  "('a heap \<Rightarrow> addr list \<Rightarrow> addr list option \<times> 'a heap) \<Rightarrow> (string \<times> addr) list \<Rightarrow> 'a heap \<Rightarrow>
     addr \<Rightarrow> (string \<times> addr) list option \<times> 'a heap" where
  "foldFragmentSelectionH rec fieldMap h fragSel =
     (case deref h fragSel of
        Some (FieldObj al name _ ss) \<Rightarrow>
          (let key = keyOf al name in
           case map_of fieldMap key of
             Some existing \<Rightarrow> mergeExisting rec fieldMap h existing ss
           | None \<Rightarrow> (Some (mapAssign key fragSel fieldMap), h))
      | _ \<Rightarrow> (Some fieldMap, h))"

definition foldFragmentH ::
  "('a heap \<Rightarrow> addr list \<Rightarrow> addr list option \<times> 'a heap) \<Rightarrow> (string \<times> addr) list \<Rightarrow> 'a heap \<Rightarrow>
     addr list \<Rightarrow> (string \<times> addr) list option \<times> 'a heap" where
  "foldFragmentH rec fieldMap h ss =
     (case rec h ss of
        (None, h1) \<Rightarrow> (None, h1)
      | (Some fragmentSelections, h1) \<Rightarrow>
          foldH (foldFragmentSelectionH rec) fieldMap h1 fragmentSelections)"

text \<open>One iteration of the loop over the selection set. The type switch has no default
  branch: a selection that is none of the three is passed over.\<close>

definition selectionStepH ::
  "('a heap \<Rightarrow> addr list \<Rightarrow> addr list option \<times> 'a heap) \<Rightarrow> addr \<Rightarrow> (string \<times> addr) list \<Rightarrow> 'a heap \<Rightarrow>
     addr \<Rightarrow> (string \<times> addr) list option \<times> 'a heap" where
  "selectionStepH rec doc fieldMap h selection =
     (case deref h selection of
        Some (FieldObj al name attrs ss) \<Rightarrow> caseFieldH rec fieldMap h al name attrs ss
      | Some (InlineFragmentObj _ _ ss) \<Rightarrow> foldFragmentH rec fieldMap h ss
      | Some (FragmentSpreadObj name _) \<Rightarrow>
          (case findFragmentDefinitionH h doc name of
             None \<Rightarrow> (Some fieldMap, h)
           | Some fragDef \<Rightarrow>
               (case deref h fragDef of
                  Some (FragmentDefinitionObj _ _ ss) \<Rightarrow> foldFragmentH rec fieldMap h ss
                | _ \<Rightarrow> (None, h)))
      | _ \<Rightarrow> (Some fieldMap, h))"

text \<open>
  \<^verbatim>\<open>flattenSelectionSet\<close> on the heap. Go leaves the order in which \<^verbatim>\<open>range\<close> visits
  a map unspecified. Here the order is the parameter \<open>ord\<close>: it is given the heap at the
  end of the call and the values of the map in the order of insertion, and returns them in
  the order in which the final loop appends them; \<open>iterationOrder\<close> says that it returns
  each value once. The heap grows with every call that returns a field, so \<open>ord\<close> can
  choose anew at every call.
\<close>

definition iterationOrder :: "('a heap \<Rightarrow> addr list \<Rightarrow> addr list) \<Rightarrow> bool" where
  "iterationOrder ord = (\<forall>h xs. mset (ord h xs) = mset xs)"

primrec flattenSelectionSetH ::
  "('a heap \<Rightarrow> addr list \<Rightarrow> addr list) \<Rightarrow> nat \<Rightarrow> 'a heap \<Rightarrow> addr list \<Rightarrow> addr \<Rightarrow>
     addr list option \<times> 'a heap" where
  "flattenSelectionSetH ord 0 h selectionSet doc = (None, h)"
| "flattenSelectionSetH ord (Suc n) h selectionSet doc =
     (case foldH (selectionStepH (\<lambda>h' ss. flattenSelectionSetH ord n h' ss doc) doc) [] h selectionSet of
        (None, h') \<Rightarrow> (None, h')
      | (Some fieldMap, h') \<Rightarrow> (Some (ord h' (map snd fieldMap)), h'))"

text \<open>\<^verbatim>\<open>flatten\<close>: the flattened operation is a new object, and the slices of its variable
  definitions and directives are new slices with the elements of the old ones.\<close>

definition flattenH ::
  "('a heap \<Rightarrow> addr list \<Rightarrow> addr list) \<Rightarrow> nat \<Rightarrow> 'a heap \<Rightarrow> addr \<Rightarrow> addr \<Rightarrow> addr option \<times> 'a heap" where
  "flattenH ord n h doc op =
     (case deref h op of
        Some (OperationDefinitionObj kind name vars dirs ss pos com) \<Rightarrow>
          (case flattenSelectionSetH ord n h ss doc of
             (None, h1) \<Rightarrow> (None, h1)
           | (Some fl, h1) \<Rightarrow>
               (Some (length h1), h1 @ [OperationDefinitionObj kind name vars dirs fl pos com]))
      | _ \<Rightarrow> (None, h))"

text \<open>Every object of \<open>h\<close> is in \<open>h'\<close>, at its address and with its value.\<close>

definition unchanged :: "'a heap \<Rightarrow> 'a heap \<Rightarrow> bool" where
  "unchanged h h' = (take (length h) h' = h)"

text \<open>What the proof keeps track of: a recursive call leaves the objects that exist
  unchanged and returns pointers to objects that it has allocated, and every pointer of
  the map points to an object allocated since the call began.\<close>

definition frameRec :: "('a heap \<Rightarrow> addr list \<Rightarrow> addr list option \<times> 'a heap) \<Rightarrow> bool" where
  "frameRec rec =
     (\<forall>h ss r h'. rec h ss = (r, h') \<longrightarrow>
        unchanged h h' \<and> (\<forall>R. r = Some R \<longrightarrow> (\<forall>a \<in> set R. length h \<le> a)))"

definition freshMap :: "'a heap \<Rightarrow> (string \<times> addr) list \<Rightarrow> bool" where
  "freshMap h0 fieldMap = (\<forall>(k, a) \<in> set fieldMap. length h0 \<le> a)"

text \<open>The heap of the reference fixture: the leaves of the two fragments, the fragment
  definitions, the spreads, the field \<^verbatim>\<open>user\<close>, the operation and the document.\<close>

definition refHeap :: "unit heap" where
  "refHeap =
     [FieldObj ''id'' ''id'' () [],                                        \<comment> \<open>0\<close>
      FieldObj ''name'' ''name'' () [],                                    \<comment> \<open>1\<close>
      FragmentDefinitionObj ''HeaderFragment'' ''User'' [0, 1],            \<comment> \<open>2\<close>
      FieldObj ''id'' ''id'' () [],                                        \<comment> \<open>3\<close>
      FieldObj ''name'' ''name'' () [],                                    \<comment> \<open>4\<close>
      FragmentDefinitionObj ''UserFragment'' ''User'' [3, 4],              \<comment> \<open>5\<close>
      FragmentSpreadObj ''HeaderFragment'' (),                             \<comment> \<open>6\<close>
      FragmentSpreadObj ''UserFragment'' (),                               \<comment> \<open>7\<close>
      FieldObj ''user'' ''user'' () [6, 7],                                \<comment> \<open>8\<close>
      OperationDefinitionObj ''query'' ''GetOrder'' [()] [] [8] () (),     \<comment> \<open>9\<close>
      QueryDocumentObj [9] [2, 5]]"                                        \<comment> \<open>10\<close>

section \<open>Properties of the selection merger\<close>

subsection \<open>Loops and the field map\<close>

lemma foldM_append:
  "foldM f s (xs @ ys) = (case foldM f s xs of None \<Rightarrow> None | Some s' \<Rightarrow> foldM f s' ys)"
  by (induction xs arbitrary: s) (auto split: option.splits)

lemma foldM_cong_on:
  assumes eq: "\<And>s x. x \<in> set xs \<Longrightarrow> P s \<Longrightarrow> f s x = g s x"
    and pres: "\<And>s x s'. x \<in> set xs \<Longrightarrow> P s \<Longrightarrow> f s x = Some s' \<Longrightarrow> P s'"
    and init: "P s"
  shows "foldM f s xs = foldM g s xs"
  using assms
proof (induction xs arbitrary: s)
  case Nil
  then show ?case by simp
next
  case (Cons x xs)
  have e: "f s x = g s x" by (rule Cons.prems(1)) (simp_all add: Cons.prems(3))
  show ?case
  proof (cases "f s x")
    case None
    then show ?thesis using e by simp
  next
    case (Some s')
    have ps': "P s'" by (rule Cons.prems(2)[of x s]) (simp_all add: Cons.prems(3) Some)
    have "foldM f s' xs = foldM g s' xs"
    proof (rule Cons.IH)
      fix t y assume "y \<in> set xs" "P t"
      then show "f t y = g t y" using Cons.prems(1)[of y t] by simp
    next
      fix t y t' assume "y \<in> set xs" "P t" "f t y = Some t'"
      then show "P t'" using Cons.prems(2)[of y t t'] by simp
    next
      show "P s'" by (rule ps')
    qed
    then show ?thesis using Some e by simp
  qed
qed

lemma foldM_invariant:
  assumes pres: "\<And>s x s'. x \<in> set xs \<Longrightarrow> P s \<Longrightarrow> f s x = Some s' \<Longrightarrow> P s'"
    and init: "P s"
    and run: "foldM f s xs = Some t"
  shows "P t"
  using assms
proof (induction xs arbitrary: s)
  case Nil
  then show ?case by simp
next
  case (Cons x xs)
  from Cons.prems(3) obtain s' where s': "f s x = Some s'" and r: "foldM f s' xs = Some t"
    by (auto split: option.splits)
  have ps': "P s'" by (rule Cons.prems(1)[of x s]) (simp_all add: Cons.prems(2) s')
  show ?case
  proof (rule Cons.IH)
    fix t y t' assume "y \<in> set xs" "P t" "f t y = Some t'"
    then show "P t'" using Cons.prems(1)[of y t t'] by simp
  next
    show "P s'" by (rule ps')
  next
    show "foldM f s' xs = Some t" by (rule r)
  qed
qed

lemma map_of_mapAssign: "map_of (mapAssign k v m) = (map_of m)(k \<mapsto> v)"
  by (induction m) (auto simp: fun_eq_iff)

lemma keys_mapAssign:
  "map fst (mapAssign k v m) = (if k \<in> fst ` set m then map fst m else map fst m @ [k])"
  by (induction m) (auto split: if_splits)

lemma mapAssign_fresh: "map_of m k = None \<Longrightarrow> mapAssign k v m = m @ [(k, v)]"
  by (induction m) (auto split: if_splits)

lemma set_mapAssign_subset: "set (mapAssign k v m) \<subseteq> insert (k, v) (set m)"
  by (induction m) (auto split: if_splits)

lemma distinct_keys_mapAssign: "distinct (map fst m) \<Longrightarrow> distinct (map fst (mapAssign k v m))"
  by (simp add: keys_mapAssign)


lemma foldM_mono:
  assumes "\<And>s x s'. f s x = Some s' \<Longrightarrow> g s x = Some s'"
    and "foldM f s xs = Some t"
  shows "foldM g s xs = Some t"
  using assms(2)
proof (induction xs arbitrary: s)
  case Nil
  then show ?case by simp
next
  case (Cons x xs)
  from Cons.prems obtain s' where s': "f s x = Some s'" and r: "foldM f s' xs = Some t"
    by (auto split: option.splits)
  from s' have "g s x = Some s'" by (rule assms(1))
  then show ?case using Cons.IH[OF r] by simp
qed

lemma fieldKey_setSelectionSet [simp]: "fieldKey (setSelectionSet e ss) = fieldKey e"
  by (simp add: fieldKey_def setSelectionSet_def)

lemma fieldKey_Field_copy [simp]:
  "fieldKey (Field (Alias s) (Name s) r ss) = fieldKey s"
  by (simp add: fieldKey_def)

lemma isField_setSelectionSet [simp]: "isField (setSelectionSet e ss)"
  by (simp add: setSelectionSet_def)

lemma SelectionSet_setSelectionSet [simp]: "SelectionSet (setSelectionSet e ss) = ss"
  by (simp add: setSelectionSet_def)

lemma keyedMap_empty [simp]: "keyedMap C []"
  by (simp add: keyedMap_def)

lemma keyedMap_lookup:
  "keyedMap C m \<Longrightarrow> map_of m k = Some e \<Longrightarrow> isField e \<and> fieldKey e = k \<and> C (SelectionSet e)"
  by (auto simp: keyedMap_def dest: map_of_SomeD)

lemma keyedMap_mapAssign:
  assumes "keyedMap C m" "isField v" "fieldKey v = k" "C (SelectionSet v)"
  shows "keyedMap C (mapAssign k v m)"
proof -
  have "distinct (map fst (mapAssign k v m))"
    using assms(1) by (simp add: keyedMap_def distinct_keys_mapAssign)
  moreover have "\<forall>(k', v') \<in> set (mapAssign k v m). isField v' \<and> fieldKey v' = k' \<and> C (SelectionSet v')"
    using set_mapAssign_subset[of k v m] assms by (auto simp: keyedMap_def)
  ultimately show ?thesis by (simp add: keyedMap_def)
qed

lemma foldFragmentSelection_keyed:
  assumes a: "\<And>ss R. rec ss = Some R \<Longrightarrow> C R"
    and x: "isField x \<Longrightarrow> C (SelectionSet x)"
    and m: "keyedMap C m"
    and r: "foldFragmentSelection rec m x = Some m'"
  shows "keyedMap C m'"
proof (cases "isField x")
  case False
  then show ?thesis using r m by (simp add: foldFragmentSelection_def)
next
  case True
  show ?thesis
  proof (cases "map_of m (fieldKey x)")
    case None
    then have "m' = mapAssign (fieldKey x) x m"
      using r True by (simp add: foldFragmentSelection_def)
    then show ?thesis using keyedMap_mapAssign[OF m True refl x[OF True]] by simp
  next
    case (Some e)
    then obtain merged where mg: "rec (SelectionSet e @ SelectionSet x) = Some merged"
      and m': "m' = mapAssign (fieldKey x) (setSelectionSet e merged) m"
      using r True by (auto simp: foldFragmentSelection_def split: option.splits)
    have e: "fieldKey e = fieldKey x" using keyedMap_lookup[OF m Some] by simp
    have "C merged" using a[OF mg] .
    then show ?thesis unfolding m'
      by (intro keyedMap_mapAssign[OF m]) (simp_all add: e)
  qed
qed

lemma caseField_keyed:
  assumes a: "\<And>ss R. rec ss = Some R \<Longrightarrow> C R"
    and m: "keyedMap C m"
    and r: "caseField rec m x = Some m'"
  shows "keyedMap C m'"
proof (cases "map_of m (fieldKey x)")
  case None
  then obtain ss where ss: "rec (SelectionSet x) = Some ss"
    and m': "m' = mapAssign (fieldKey x) (Field (Alias x) (Name x) (FieldAttrs x) ss) m"
    using r by (auto simp: caseField_def split: option.splits)
  have "C ss" using a[OF ss] .
  then show ?thesis unfolding m'
    by (intro keyedMap_mapAssign[OF m]) simp_all
next
  case (Some e)
  then obtain merged where mg: "rec (SelectionSet e @ SelectionSet x) = Some merged"
    and m': "m' = mapAssign (fieldKey x) (setSelectionSet e merged) m"
    using r by (auto simp: caseField_def split: option.splits)
  have e: "fieldKey e = fieldKey x" using keyedMap_lookup[OF m Some] by simp
  have "C merged" using a[OF mg] .
  then show ?thesis unfolding m'
    by (intro keyedMap_mapAssign[OF m]) (simp_all add: e)
qed

lemma foldFragment_keyed:
  assumes a: "\<And>ss R. rec ss = Some R \<Longrightarrow> C R"
    and b: "\<And>f. f \<in> set frags \<Longrightarrow> isField f \<Longrightarrow> C (SelectionSet f)"
    and m: "keyedMap C m"
    and r: "foldM (foldFragmentSelection rec) m frags = Some m'"
  shows "keyedMap C m'"
proof (rule foldM_invariant[where P = "keyedMap C", OF _ m r])
  fix s x s'
  assume "x \<in> set frags" "keyedMap C s" "foldFragmentSelection rec s x = Some s'"
  then show "keyedMap C s'"
    using foldFragmentSelection_keyed[of rec C x s s'] a b by blast
qed

lemma selectionStep_keyed:
  assumes a: "\<And>ss R. rec ss = Some R \<Longrightarrow> C R"
    and b: "\<And>ss R f. rec ss = Some R \<Longrightarrow> f \<in> set R \<Longrightarrow> isField f \<Longrightarrow> C (SelectionSet f)"
    and m: "keyedMap C m"
    and r: "selectionStep rec doc m s = Some m'"
  shows "keyedMap C m'"
proof (cases s)
  case (Field al n at ss)
  then have "caseField rec m s = Some m'" using r by (simp add: selectionStep_def)
  then show ?thesis using caseField_keyed[of rec C m s m'] a m by blast
next
  case (InlineFragment t at ss)
  then obtain frags where f: "rec ss = Some frags"
    and fm: "foldM (foldFragmentSelection rec) m frags = Some m'"
    using r by (auto simp: selectionStep_def split: option.splits)
  show ?thesis
    by (rule foldFragment_keyed[OF a b[OF f] m fm])
next
  case (FragmentSpread n at)
  show ?thesis
  proof (cases "findFragmentDefinition doc n")
    case None
    then show ?thesis using r m FragmentSpread by (simp add: selectionStep_def)
  next
    case (Some fragDef)
    then obtain frags where f: "rec (FragSelectionSet fragDef) = Some frags"
      and fm: "foldM (foldFragmentSelection rec) m frags = Some m'"
      using r FragmentSpread by (auto simp: selectionStep_def split: option.splits)
    show ?thesis
      by (rule foldFragment_keyed[OF a b[OF f] m fm])
  qed
qed

lemma selectionLoop_keyed:
  assumes a: "\<And>ss R. rec ss = Some R \<Longrightarrow> C R"
    and b: "\<And>ss R f. rec ss = Some R \<Longrightarrow> f \<in> set R \<Longrightarrow> isField f \<Longrightarrow> C (SelectionSet f)"
    and m: "keyedMap C m"
    and r: "foldM (selectionStep rec doc) m S = Some m'"
  shows "keyedMap C m'"
proof (rule foldM_invariant[where P = "keyedMap C", OF _ m r])
  fix s x s'
  assume "x \<in> set S" "keyedMap C s" "selectionStep rec doc s x = Some s'"
  then show "keyedMap C s'"
    using selectionStep_keyed[of rec C s doc x s'] a b by blast
qed

lemma keyedMap_values:
  assumes "keyedMap C m"
  shows "map fieldKey (map snd m) = map fst m"
    and "list_all isField (map snd m)"
    and "list_all (\<lambda>v. C (SelectionSet v)) (map snd m)"
  using assms by (auto simp: keyedMap_def list_all_iff)

lemma flatSel_iff: "flatSel v \<longleftrightarrow> isField v \<and> flat (SelectionSet v)"
  by (cases v) (simp_all add: flat_def)

lemma flat_keyedMap:
  assumes "keyedMap flat m"
  shows "flat (map snd m)"
proof -
  have k: "map fieldKey (map snd m) = map fst m"
    and f: "list_all isField (map snd m)"
    and c: "list_all (\<lambda>v. flat (SelectionSet v)) (map snd m)"
    using keyedMap_values[OF assms] by blast+
  have "distinct (map fieldKey (map snd m))"
    unfolding k using assms by (simp add: keyedMap_def)
  moreover have "list_all flatSel (map snd m)"
    using f c unfolding list_all_iff flatSel_iff by blast
  ultimately show ?thesis unfolding flat_def by blast
qed

lemma flat_member:
  assumes "flat R" "f \<in> set R"
  shows "isField f \<and> flat (SelectionSet f)"
proof -
  have "flatSel f" using assms unfolding flat_def list_all_iff by blast
  then show ?thesis by (simp only: flatSel_iff)
qed

lemma flatten_flat: "flattenSelectionSet n S doc = Some R \<Longrightarrow> flat R"
proof (induction n arbitrary: S R)
  case 0
  then show ?case by simp
next
  case (Suc n)
  from Suc.prems obtain m where m: "foldM (selectionStep (\<lambda>ss. flattenSelectionSet n ss doc) doc) [] S = Some m"
    and R: "R = map snd m" by auto
  have "keyedMap flat m"
  proof (rule selectionLoop_keyed[OF _ _ keyedMap_empty m])
    fix ss R' assume "flattenSelectionSet n ss doc = Some R'"
    then show "flat R'" by (rule Suc.IH)
  next
    fix ss R' f assume "flattenSelectionSet n ss doc = Some R'" "f \<in> set R'" "isField f"
    then show "flat (SelectionSet f)" using Suc.IH flat_member by blast
  qed
  then show ?case unfolding R by (rule flat_keyedMap)
qed


lemma foldFragmentSelection_simps:
  "\<not> isField x \<Longrightarrow> foldFragmentSelection rec m x = Some m"
  "isField x \<Longrightarrow> map_of m (fieldKey x) = None \<Longrightarrow>
     foldFragmentSelection rec m x = Some (mapAssign (fieldKey x) x m)"
  "isField x \<Longrightarrow> map_of m (fieldKey x) = Some e \<Longrightarrow>
     foldFragmentSelection rec m x =
       map_option (\<lambda>merged. mapAssign (fieldKey x) (setSelectionSet e merged) m)
         (rec (SelectionSet e @ SelectionSet x))"
  by (simp_all add: foldFragmentSelection_def Let_def split: option.splits)

lemma caseField_simps:
  "map_of m (fieldKey x) = None \<Longrightarrow>
     caseField rec m x =
       map_option (\<lambda>ss. mapAssign (fieldKey x) (Field (Alias x) (Name x) (FieldAttrs x) ss) m)
         (rec (SelectionSet x))"
  "map_of m (fieldKey x) = Some e \<Longrightarrow>
     caseField rec m x =
       map_option (\<lambda>merged. mapAssign (fieldKey x) (setSelectionSet e merged) m)
         (rec (SelectionSet e @ SelectionSet x))"
  by (simp_all add: caseField_def Let_def split: option.splits)

lemma foldFragmentSelection_mono:
  assumes "\<And>ss R. rec ss = Some R \<Longrightarrow> rec' ss = Some R"
    and "foldFragmentSelection rec m x = Some m'"
  shows "foldFragmentSelection rec' m x = Some m'"
proof (cases "map_of m (fieldKey x)")
  case None
  then show ?thesis using assms(2)
    by (cases "isField x") (simp_all add: foldFragmentSelection_simps)
next
  case (Some e)
  show ?thesis
  proof (cases "isField x")
    case False
    then show ?thesis using assms(2) by (simp add: foldFragmentSelection_simps)
  next
    case True
    then obtain merged where mg: "rec (SelectionSet e @ SelectionSet x) = Some merged"
      and m': "m' = mapAssign (fieldKey x) (setSelectionSet e merged) m"
      using assms(2) Some by (auto simp: foldFragmentSelection_simps)
    show ?thesis using assms(1)[OF mg] m' Some True by (simp add: foldFragmentSelection_simps)
  qed
qed

lemma caseField_mono:
  assumes "\<And>ss R. rec ss = Some R \<Longrightarrow> rec' ss = Some R"
    and "caseField rec m x = Some m'"
  shows "caseField rec' m x = Some m'"
proof (cases "map_of m (fieldKey x)")
  case None
  then obtain ss where ss: "rec (SelectionSet x) = Some ss"
    and m': "m' = mapAssign (fieldKey x) (Field (Alias x) (Name x) (FieldAttrs x) ss) m"
    using assms(2) by (auto simp: caseField_simps)
  show ?thesis using assms(1)[OF ss] m' None by (simp add: caseField_simps)
next
  case (Some e)
  then obtain merged where mg: "rec (SelectionSet e @ SelectionSet x) = Some merged"
    and m': "m' = mapAssign (fieldKey x) (setSelectionSet e merged) m"
    using assms(2) by (auto simp: caseField_simps)
  show ?thesis using assms(1)[OF mg] m' Some by (simp add: caseField_simps)
qed

lemma selectionStep_mono:
  assumes le: "\<And>ss R. rec ss = Some R \<Longrightarrow> rec' ss = Some R"
    and r: "selectionStep rec doc m s = Some m'"
  shows "selectionStep rec' doc m s = Some m'"
proof (cases s)
  case (Field al n at ss)
  then show ?thesis using r caseField_mono[of rec rec' m s m'] le
    by (simp add: selectionStep_def)
next
  case (InlineFragment t at ss)
  then obtain frags where f: "rec ss = Some frags"
    and fm: "foldM (foldFragmentSelection rec) m frags = Some m'"
    using r by (auto simp: selectionStep_def split: option.splits)
  have "foldM (foldFragmentSelection rec') m frags = Some m'"
    by (rule foldM_mono[OF _ fm]) (rule foldFragmentSelection_mono[OF le])
  then show ?thesis using le[OF f] InlineFragment by (simp add: selectionStep_def)
next
  case (FragmentSpread n at)
  show ?thesis
  proof (cases "findFragmentDefinition doc n")
    case None
    then show ?thesis using r FragmentSpread by (simp add: selectionStep_def)
  next
    case (Some fragDef)
    then obtain frags where f: "rec (FragSelectionSet fragDef) = Some frags"
      and fm: "foldM (foldFragmentSelection rec) m frags = Some m'"
      using r FragmentSpread by (auto simp: selectionStep_def split: option.splits)
    have "foldM (foldFragmentSelection rec') m frags = Some m'"
      by (rule foldM_mono[OF _ fm]) (rule foldFragmentSelection_mono[OF le])
    then show ?thesis using le[OF f] FragmentSpread Some by (simp add: selectionStep_def)
  qed
qed

lemma flatten_mono_Suc:
  "flattenSelectionSet n S doc = Some R \<Longrightarrow> flattenSelectionSet (Suc n) S doc = Some R"
proof (induction n arbitrary: S R)
  case 0
  then show ?case by simp
next
  case (Suc n)
  from Suc.prems obtain m where m: "foldM (selectionStep (\<lambda>ss. flattenSelectionSet n ss doc) doc) [] S = Some m"
    and R: "R = map snd m" by auto
  have "foldM (selectionStep (\<lambda>ss. flattenSelectionSet (Suc n) ss doc) doc) [] S = Some m"
  proof (rule foldM_mono[OF _ m])
    fix s x s'
    assume "selectionStep (\<lambda>ss. flattenSelectionSet n ss doc) doc s x = Some s'"
    then show "selectionStep (\<lambda>ss. flattenSelectionSet (Suc n) ss doc) doc s x = Some s'"
      by (rule selectionStep_mono[rotated]) (rule Suc.IH)
  qed
  then show ?case using R by simp
qed

lemma flatten_mono:
  "flattenSelectionSet n S doc = Some R \<Longrightarrow> n \<le> k \<Longrightarrow> flattenSelectionSet k S doc = Some R"
proof -
  assume r: "flattenSelectionSet n S doc = Some R" and le: "n \<le> k"
  have "flattenSelectionSet (n + d) S doc = Some R" for d
  proof (induction d)
    case 0
    show ?case using r by simp
  next
    case (Suc d)
    have "flattenSelectionSet (Suc (n + d)) S doc = Some R"
      using Suc by (rule flatten_mono_Suc)
    then show ?case by (simp del: flattenSelectionSet.simps)
  qed
  from this[of "k - n"] le show ?thesis by (simp del: flattenSelectionSet.simps)
qed

lemma Field_collapse: "isField f \<Longrightarrow> Field (Alias f) (Name f) (FieldAttrs f) (SelectionSet f) = f"
  by (cases f) simp_all

lemma caseField_fixed:
  assumes "isField f" "rec (SelectionSet f) = Some (SelectionSet f)" "map_of m (fieldKey f) = None"
  shows "caseField rec m f = Some (m @ [(fieldKey f, f)])"
  using assms by (simp add: caseField_simps mapAssign_fresh Field_collapse)

lemma selectionStep_Field: "isField f \<Longrightarrow> selectionStep rec doc m f = caseField rec m f"
  by (cases f) (simp_all add: selectionStep_def)

lemma replay_fields:
  assumes "\<forall>f \<in> set Q. isField f \<and> rec (SelectionSet f) = Some (SelectionSet f)"
    and "distinct (map fst m @ map fieldKey Q)"
  shows "foldM (selectionStep rec doc) m Q = Some (m @ map (\<lambda>f. (fieldKey f, f)) Q)"
  using assms
proof (induction Q arbitrary: m)
  case Nil
  then show ?case by simp
next
  case (Cons f Q)
  have f: "isField f" "rec (SelectionSet f) = Some (SelectionSet f)" using Cons.prems(1) by simp_all
  have "fieldKey f \<notin> fst ` set m" using Cons.prems(2) by auto
  then have none: "map_of m (fieldKey f) = None" by (simp add: map_of_eq_None_iff)
  have step: "selectionStep rec doc m f = Some (m @ [(fieldKey f, f)])"
    using selectionStep_Field[OF f(1), of rec doc m] caseField_fixed[of f rec m] f none by simp
  have "foldM (selectionStep rec doc) (m @ [(fieldKey f, f)]) Q
        = Some ((m @ [(fieldKey f, f)]) @ map (\<lambda>f. (fieldKey f, f)) Q)"
    using Cons.prems by (intro Cons.IH) auto
  then show ?case using step by simp
qed

lemma flatten_fixed_aux:
  "(\<forall>S R. flattenSelectionSet n S doc = Some R \<longrightarrow> flattenSelectionSet n R doc = Some R) \<and>
   (\<forall>S R f. flattenSelectionSet n S doc = Some R \<longrightarrow> f \<in> set R \<longrightarrow>
      flattenSelectionSet n (SelectionSet f) doc = Some (SelectionSet f))"
proof (induction n)
  case 0
  then show ?case by simp
next
  case (Suc n)
  let ?rec = "\<lambda>ss. flattenSelectionSet n ss doc"
  let ?C = "\<lambda>c. ?rec c = Some c"
  have keyed: "keyedMap ?C m \<and> R = map snd m \<and> flat R"
    if "flattenSelectionSet (Suc n) S doc = Some R"
       "foldM (selectionStep ?rec doc) [] S = Some m" for S R m
  proof -
    have "keyedMap ?C m"
    proof (rule selectionLoop_keyed[OF _ _ keyedMap_empty that(2)])
      fix ss R' assume "?rec ss = Some R'"
      then show "?rec R' = Some R'" using Suc.IH by blast
    next
      fix ss R' f assume "?rec ss = Some R'" "f \<in> set R'" "isField f"
      then show "?rec (SelectionSet f) = Some (SelectionSet f)" using Suc.IH by blast
    qed
    then show ?thesis using that flatten_flat[OF that(1)] by simp
  qed
  have fixed: "flattenSelectionSet n (SelectionSet f) doc = Some (SelectionSet f)"
    if "flattenSelectionSet (Suc n) S doc = Some R" "f \<in> set R" for S R f
  proof -
    from that(1) obtain m where m: "foldM (selectionStep ?rec doc) [] S = Some m" by auto
    from keyed[OF that(1) m] that(2) show ?thesis
      using keyedMap_values(3)[of ?C m] by (auto simp: list_all_iff)
  qed
  have idem: "flattenSelectionSet (Suc n) R doc = Some R"
    if "flattenSelectionSet (Suc n) S doc = Some R" for S R
  proof -
    have fl: "flat R" using flatten_flat[OF that] .
    have "\<forall>f \<in> set R. isField f \<and> ?rec (SelectionSet f) = Some (SelectionSet f)"
      using fixed[OF that] flat_member[OF fl] by blast
    moreover have "distinct (map fst [] @ map fieldKey R)" using fl by (simp add: flat_def)
    ultimately have "foldM (selectionStep ?rec doc) [] R = Some ([] @ map (\<lambda>f. (fieldKey f, f)) R)"
      by (rule replay_fields)
    then show ?thesis by (simp add: comp_def)
  qed
  have fixed': "flattenSelectionSet (Suc n) (SelectionSet f) doc = Some (SelectionSet f)"
    if "flattenSelectionSet (Suc n) S doc = Some R" "f \<in> set R" for S R f
    using fixed[OF that] by (rule flatten_mono_Suc)
  show ?case
  proof (intro conjI allI impI)
    fix S R assume "flattenSelectionSet (Suc n) S doc = Some R"
    then show "flattenSelectionSet (Suc n) R doc = Some R" by (rule idem)
  next
    fix S R f assume "flattenSelectionSet (Suc n) S doc = Some R" "f \<in> set R"
    then show "flattenSelectionSet (Suc n) (SelectionSet f) doc = Some (SelectionSet f)"
      by (rule fixed')
  qed
qed

lemma flatten_idem: "flattenSelectionSet n S doc = Some R \<Longrightarrow> flattenSelectionSet n R doc = Some R"
  by (rule flatten_fixed_aux[THEN conjunct1, rule_format])

lemma flatten_children_fixed:
  "flattenSelectionSet n S doc = Some R \<Longrightarrow> f \<in> set R \<Longrightarrow>
   flattenSelectionSet n (SelectionSet f) doc = Some (SelectionSet f)"
  by (rule flatten_fixed_aux[THEN conjunct2, rule_format])

subsection \<open>Folding a flattened fragment is processing its fields\<close>

lemma foldFragmentSelection_eq_step:
  assumes "isField f" "rec (SelectionSet f) = Some (SelectionSet f)"
  shows "foldFragmentSelection rec m f = selectionStep rec doc m f"
proof (cases "map_of m (fieldKey f)")
  case None
  then show ?thesis
    using assms by (simp add: selectionStep_Field foldFragmentSelection_simps caseField_simps Field_collapse)
next
  case (Some e)
  then show ?thesis
    using assms by (simp add: selectionStep_Field foldFragmentSelection_simps caseField_simps)
qed

lemma foldFragment_eq_loop:
  assumes "\<forall>f \<in> set B. isField f \<and> rec (SelectionSet f) = Some (SelectionSet f)"
  shows "foldM (foldFragmentSelection rec) m B = foldM (selectionStep rec doc) m B"
  using assms
proof (induction B arbitrary: m)
  case Nil
  then show ?case by simp
next
  case (Cons f B)
  have "foldFragmentSelection rec m f = selectionStep rec doc m f"
    using Cons.prems by (intro foldFragmentSelection_eq_step) simp_all
  then show ?case using Cons.IH Cons.prems by (simp split: option.splits)
qed

lemma selectionStep_fragment:
  assumes c: "fragmentContents doc sel = Some body"
    and b: "rec body = Some B"
  shows "selectionStep rec doc m sel = foldM (foldFragmentSelection rec) m B"
proof (cases sel)
  case (Field al n at ss)
  then show ?thesis using c by (simp add: fragmentContents_def)
next
  case (InlineFragment t at ss)
  then show ?thesis using c b by (simp add: fragmentContents_def selectionStep_def)
next
  case (FragmentSpread n at)
  then show ?thesis using c b by (auto simp: fragmentContents_def selectionStep_def)
qed


subsection \<open>The keys of the field map\<close>

lemma keys_mapAssign_subset: "fst ` set m \<subseteq> fst ` set (mapAssign k v m)"
proof -
  have "set (map fst m) \<subseteq> set (map fst (mapAssign k v m))"
    unfolding keys_mapAssign by auto
  then show ?thesis by simp
qed

lemma key_in_mapAssign: "k \<in> fst ` set (mapAssign k v m)"
proof -
  have "k \<in> set (map fst (mapAssign k v m))"
    unfolding keys_mapAssign by auto
  then show ?thesis by simp
qed

lemma foldFragmentSelection_shape:
  assumes "foldFragmentSelection rec m x = Some m'"
  shows "m' = m \<or> (\<exists>v. m' = mapAssign (fieldKey x) v m)"
proof (cases "isField x")
  case False
  then show ?thesis using assms by (simp add: foldFragmentSelection_simps)
next
  case True
  show ?thesis
  proof (cases "map_of m (fieldKey x)")
    case None
    then show ?thesis using assms True by (auto simp: foldFragmentSelection_simps)
  next
    case (Some e)
    then show ?thesis using assms True by (auto simp: foldFragmentSelection_simps)
  qed
qed

lemma caseField_shape:
  assumes "caseField rec m x = Some m'"
  shows "\<exists>v. m' = mapAssign (fieldKey x) v m"
proof (cases "map_of m (fieldKey x)")
  case None
  then show ?thesis using assms by (auto simp: caseField_simps)
next
  case (Some e)
  then show ?thesis using assms by (auto simp: caseField_simps)
qed

lemma foldFragmentSelection_keys:
  assumes "foldFragmentSelection rec m x = Some m'"
  shows "fst ` set m \<subseteq> fst ` set m'"
  using foldFragmentSelection_shape[OF assms] keys_mapAssign_subset[of m] by blast

lemma caseField_keys:
  assumes "caseField rec m x = Some m'"
  shows "fst ` set m \<subseteq> fst ` set m' \<and> fieldKey x \<in> fst ` set m'"
  using caseField_shape[OF assms] keys_mapAssign_subset[of m] key_in_mapAssign[of "fieldKey x" _ m]
  by blast

lemma foldFragment_keys:
  assumes "foldM (foldFragmentSelection rec) m frags = Some m'"
  shows "fst ` set m \<subseteq> fst ` set m'"
proof (rule foldM_invariant[where P = "\<lambda>s. fst ` set m \<subseteq> fst ` set s", OF _ _ assms])
  fix s x s'
  assume "fst ` set m \<subseteq> fst ` set s" "foldFragmentSelection rec s x = Some s'"
  then show "fst ` set m \<subseteq> fst ` set s'"
    using foldFragmentSelection_keys[of rec s x s'] by blast
qed simp

lemma selectionStep_keys:
  assumes r: "selectionStep rec doc m s = Some m'"
  shows "fst ` set m \<subseteq> fst ` set m'"
proof (cases s)
  case (Field al n at ss)
  then show ?thesis using r caseField_keys[of rec m s m'] by (simp add: selectionStep_def)
next
  case (InlineFragment t at ss)
  then show ?thesis using r foldFragment_keys[of rec m _ m']
    by (auto simp: selectionStep_def split: option.splits)
next
  case (FragmentSpread n at)
  then show ?thesis using r foldFragment_keys[of rec m _ m']
    by (auto simp: selectionStep_def split: option.splits)
qed

lemma selectionLoop_keys:
  assumes "foldM (selectionStep rec doc) m S = Some m'"
  shows "fst ` set m \<subseteq> fst ` set m'"
proof (rule foldM_invariant[where P = "\<lambda>s. fst ` set m \<subseteq> fst ` set s", OF _ _ assms])
  fix s x s'
  assume "fst ` set m \<subseteq> fst ` set s" "selectionStep rec doc s x = Some s'"
  then show "fst ` set m \<subseteq> fst ` set s'"
    using selectionStep_keys[of rec doc s x s'] by blast
qed simp

lemma selectionLoop_field_key:
  assumes "foldM (selectionStep rec doc) m S = Some m'" "f \<in> set S" "isField f"
  shows "fieldKey f \<in> fst ` set m'"
  using assms
proof (induction S arbitrary: m)
  case Nil
  then show ?case by simp
next
  case (Cons x S)
  from Cons.prems(1) obtain m1 where m1: "selectionStep rec doc m x = Some m1"
    and r: "foldM (selectionStep rec doc) m1 S = Some m'"
    by (auto split: option.splits)
  show ?case
  proof (cases "f = x")
    case True
    then have "caseField rec m f = Some m1" using m1 Cons.prems(3) by (simp add: selectionStep_Field)
    then have "fieldKey f \<in> fst ` set m1" using caseField_keys by blast
    then show ?thesis using selectionLoop_keys[OF r] by blast
  next
    case False
    then have "f \<in> set S" using Cons.prems(2) by simp
    then show ?thesis using Cons.IH[OF r] Cons.prems(3) by blast
  qed
qed

lemma flatten_field_entry:
  assumes r: "flattenSelectionSet n S doc = Some R" and f: "f \<in> set S" "isField f"
  shows "fieldKey f \<in> fieldKey ` set R"
proof (cases n)
  case 0
  then show ?thesis using r by simp
next
  case (Suc k)
  let ?rec = "\<lambda>ss. flattenSelectionSet k ss doc"
  from r Suc obtain m where m: "foldM (selectionStep ?rec doc) [] S = Some m"
    and R: "R = map snd m" by auto
  have "keyedMap flat m"
  proof (rule selectionLoop_keyed[OF _ _ keyedMap_empty m])
    fix ss R' assume "?rec ss = Some R'"
    then show "flat R'" by (rule flatten_flat)
  next
    fix ss R' f assume "?rec ss = Some R'" "f \<in> set R'" "isField f"
    then show "flat (SelectionSet f)" using flatten_flat flat_member by blast
  qed
  then have k: "map fieldKey R = map fst m" unfolding R by (rule keyedMap_values(1))
  have "fieldKey f \<in> fst ` set m" using selectionLoop_field_key[OF m f] .
  then have "fieldKey f \<in> set (map fieldKey R)" unfolding k by simp
  then show ?thesis by simp
qed

lemma flat_unique_key:
  assumes "flat R" "r \<in> set R" "r' \<in> set R" "fieldKey r = fieldKey r'"
  shows "r = r'"
proof -
  have "inj_on fieldKey (set R)" using assms(1) by (simp add: flat_def distinct_map)
  then show ?thesis using assms(2-4) by (auto dest: inj_onD)
qed

lemma flatten_unresolved_spread:
  assumes "findFragmentDefinition doc name = None"
  shows "flattenSelectionSet n (xs @ FragmentSpread name a # ys) doc = flattenSelectionSet n (xs @ ys) doc"
proof (cases n)
  case 0
  then show ?thesis by simp
next
  case (Suc k)
  have "selectionStep rec doc m (FragmentSpread name a) = Some m" for rec m
    using assms by (simp add: selectionStep_def)
  then show ?thesis unfolding Suc
    by (simp add: foldM_append split: option.splits)
qed

subsection \<open>Type conditions are never read\<close>

lemma erase_flatSel: "flatSel v \<Longrightarrow> eraseTypeConditions v = v"
proof (induction v)
  case (Field a n r ss)
  have "map eraseTypeConditions ss = ss"
  proof (rule map_idI)
    fix x assume x: "x \<in> set ss"
    then have "flatSel x" using Field.prems by (simp add: list_all_iff)
    then show "eraseTypeConditions x = x" using Field.IH[OF x] by simp
  qed
  then show ?case by simp
qed simp_all

lemma erase_flat: "flat R \<Longrightarrow> map eraseTypeConditions R = R"
  by (rule map_idI) (simp add: flat_def list_all_iff erase_flatSel)

lemma erase_isField [simp]: "isField (eraseTypeConditions s) = isField s"
  by (cases s) simp_all

lemma erase_Field_simps [simp]:
  assumes "isField s"
  shows "fieldKey (eraseTypeConditions s) = fieldKey s"
    and "SelectionSet (eraseTypeConditions s) = map eraseTypeConditions (SelectionSet s)"
    and "Alias (eraseTypeConditions s) = Alias s"
    and "Name (eraseTypeConditions s) = Name s"
    and "FieldAttrs (eraseTypeConditions s) = FieldAttrs s"
  using assms by (cases s; simp add: fieldKey_def)+

lemma find_map_option: "find P (map f xs) = map_option f (find (\<lambda>x. P (f x)) xs)"
  by (induction xs) simp_all

lemma findFragmentDefinition_erase:
  assumes "Fragments doc' = map eraseFragment (Fragments doc)"
  shows "findFragmentDefinition doc' name = map_option eraseFragment (findFragmentDefinition doc name)"
proof -
  have "FragName (eraseFragment frag) = FragName frag" for frag :: "'a FragmentDefinition"
    by (simp add: eraseFragment_def)
  then show ?thesis
    by (simp add: findFragmentDefinition_def assms find_map_option)
qed

lemma keyedMap_flat_lookup:
  "keyedMap flat m \<Longrightarrow> map_of m k = Some e \<Longrightarrow> map eraseTypeConditions (SelectionSet e) = SelectionSet e"
  using keyedMap_lookup[of flat m k e] erase_flat by blast

lemma caseField_erase:
  assumes ih: "\<And>ss. rec' (map eraseTypeConditions ss) = rec ss"
    and m: "keyedMap flat m" and f: "isField s"
  shows "caseField rec' m (eraseTypeConditions s) = caseField rec m s"
proof (cases "map_of m (fieldKey s)")
  case None
  then show ?thesis using f ih by (simp add: caseField_simps)
next
  case (Some e)
  have "rec' (SelectionSet e @ map eraseTypeConditions (SelectionSet s)) = rec (SelectionSet e @ SelectionSet s)"
    using ih[of "SelectionSet e @ SelectionSet s"] keyedMap_flat_lookup[OF m Some] by simp
  then show ?thesis using f Some by (simp add: caseField_simps)
qed

lemma foldFragmentSelection_erase:
  assumes ih: "\<And>ss. rec' (map eraseTypeConditions ss) = rec ss"
    and m: "keyedMap flat m" and x: "isField x \<Longrightarrow> flat (SelectionSet x)"
  shows "foldFragmentSelection rec' m x = foldFragmentSelection rec m x"
proof (cases "isField x")
  case False
  then show ?thesis by (simp add: foldFragmentSelection_simps)
next
  case True
  show ?thesis
  proof (cases "map_of m (fieldKey x)")
    case None
    then show ?thesis using True by (simp add: foldFragmentSelection_simps)
  next
    case (Some e)
    have "rec' (SelectionSet e @ SelectionSet x) = rec (SelectionSet e @ SelectionSet x)"
      using ih[of "SelectionSet e @ SelectionSet x"] keyedMap_flat_lookup[OF m Some]
        erase_flat[OF x[OF True]] by simp
    then show ?thesis using True Some by (simp add: foldFragmentSelection_simps)
  qed
qed

lemma foldFragment_erase:
  assumes ih: "\<And>ss. rec' (map eraseTypeConditions ss) = rec ss"
    and fl: "\<And>ss R. rec ss = Some R \<Longrightarrow> flat R"
    and m: "keyedMap flat (m :: 'a fieldMap)" and frags: "flat frags"
  shows "foldM (foldFragmentSelection rec') m frags = foldM (foldFragmentSelection rec) m frags"
proof (rule foldM_cong_on[where P = "keyedMap flat :: 'a fieldMap \<Rightarrow> bool"])
  fix s :: "'a fieldMap" and x assume "x \<in> set frags" "keyedMap flat s"
  then show "foldFragmentSelection rec' s x = foldFragmentSelection rec s x"
    using foldFragmentSelection_erase[of rec' rec s x] ih flat_member[OF frags] by blast
next
  fix s :: "'a fieldMap" and x s' assume x: "x \<in> set frags" and s: "keyedMap flat s"
    and r: "foldFragmentSelection rec' s x = Some s'"
  have "foldFragmentSelection rec s x = Some s'"
    using foldFragmentSelection_erase[of rec' rec s x] ih flat_member[OF frags x] s r by simp
  then show "keyedMap flat s'"
    using foldFragmentSelection_keyed[of rec flat x s s'] fl flat_member[OF frags x] s by blast
next
  show "keyedMap flat m" by (rule m)
qed

lemma selectionStep_erase:
  assumes ih: "\<And>ss. rec' (map eraseTypeConditions ss) = rec ss"
    and fl: "\<And>ss R. rec ss = Some R \<Longrightarrow> flat R"
    and d: "Fragments doc' = map eraseFragment (Fragments doc)"
    and m: "keyedMap flat m"
  shows "selectionStep rec' doc' m (eraseTypeConditions s) = selectionStep rec doc m s"
proof (cases s)
  case (Field a n r ss)
  then have "isField s" by simp
  then show ?thesis using caseField_erase[of rec' rec m s] ih m
    by (simp add: selectionStep_Field)
next
  case (InlineFragment t r ss)
  show ?thesis
  proof (cases "rec ss")
    case None
    then show ?thesis using InlineFragment ih[of ss] by (simp add: selectionStep_def)
  next
    case (Some frags)
    have "foldM (foldFragmentSelection rec') m frags = foldM (foldFragmentSelection rec) m frags"
      using foldFragment_erase[of rec' rec m frags] ih fl m Some by blast
    then show ?thesis using InlineFragment ih[of ss] Some by (simp add: selectionStep_def)
  qed
next
  case (FragmentSpread n r)
  show ?thesis
  proof (cases "findFragmentDefinition doc n")
    case None
    then show ?thesis using FragmentSpread findFragmentDefinition_erase[OF d, of n]
      by (simp add: selectionStep_def)
  next
    case fd: (Some fragDef)
    have fd': "findFragmentDefinition doc' n = Some (eraseFragment fragDef)"
      using findFragmentDefinition_erase[OF d, of n] fd by simp
    have body: "rec' (FragSelectionSet (eraseFragment fragDef)) = rec (FragSelectionSet fragDef)"
      using ih[of "FragSelectionSet fragDef"] by (simp add: eraseFragment_def)
    show ?thesis
    proof (cases "rec (FragSelectionSet fragDef)")
      case None
      then show ?thesis using FragmentSpread fd fd' body by (simp add: selectionStep_def)
    next
      case (Some frags)
      have "foldM (foldFragmentSelection rec') m frags = foldM (foldFragmentSelection rec) m frags"
        using foldFragment_erase[of rec' rec m frags] ih fl m Some by blast
      then show ?thesis using FragmentSpread fd fd' body Some by (simp add: selectionStep_def)
    qed
  qed
qed

lemma selectionLoop_erase:
  assumes ih: "\<And>ss. rec' (map eraseTypeConditions ss) = rec ss"
    and fl: "\<And>ss R. rec ss = Some R \<Longrightarrow> flat R"
    and d: "Fragments doc' = map eraseFragment (Fragments doc)"
    and m: "keyedMap flat m"
  shows "foldM (selectionStep rec' doc') m (map eraseTypeConditions S) = foldM (selectionStep rec doc) m S"
  using m
proof (induction S arbitrary: m)
  case Nil
  then show ?case by simp
next
  case (Cons s S)
  have st: "selectionStep rec' doc' m (eraseTypeConditions s) = selectionStep rec doc m s"
    using selectionStep_erase[of rec' rec doc' doc m s] ih fl d Cons.prems by blast
  show ?case
  proof (cases "selectionStep rec doc m s")
    case None
    then show ?thesis using st by simp
  next
    case (Some m1)
    have "keyedMap flat m1"
      using selectionStep_keyed[of rec flat m doc s m1] fl flat_member Cons.prems Some by blast
    then show ?thesis using st Some Cons.IH by simp
  qed
qed

lemma flatten_erase:
  assumes d: "Fragments doc' = map eraseFragment (Fragments doc)"
  shows "flattenSelectionSet n (map eraseTypeConditions S) doc' = flattenSelectionSet n S doc"
proof (induction n arbitrary: S)
  case 0
  then show ?case by simp
next
  case (Suc n)
  have "foldM (selectionStep (\<lambda>ss. flattenSelectionSet n ss doc') doc') [] (map eraseTypeConditions S)
      = foldM (selectionStep (\<lambda>ss. flattenSelectionSet n ss doc) doc) [] S"
  proof (rule selectionLoop_erase[where rec = "\<lambda>ss. flattenSelectionSet n ss doc" and rec' = "\<lambda>ss. flattenSelectionSet n ss doc'", OF _ _ d keyedMap_empty])
    fix ss show "flattenSelectionSet n (map eraseTypeConditions ss) doc' = flattenSelectionSet n ss doc"
      by (rule Suc.IH)
  next
    fix ss R assume "flattenSelectionSet n ss doc = Some R"
    then show "flat R" by (rule flatten_flat)
  qed
  then show ?case by simp
qed

lemma flatten_type_conditions:
  assumes "map eraseTypeConditions S = map eraseTypeConditions S'"
    and "map eraseFragment (Fragments doc) = map eraseFragment (Fragments doc')"
  shows "flattenSelectionSet n S doc = flattenSelectionSet n S' doc'"
proof -
  define D where "D = \<lparr>Operations = [], Fragments = map eraseFragment (Fragments doc)\<rparr>"
  have "flattenSelectionSet n (map eraseTypeConditions S) D = flattenSelectionSet n S doc"
    by (rule flatten_erase) (simp add: D_def)
  moreover have "flattenSelectionSet n (map eraseTypeConditions S') D = flattenSelectionSet n S' doc'"
    by (rule flatten_erase) (simp add: D_def assms(2))
  ultimately show ?thesis using assms(1) by simp
qed

subsection \<open>The children of a merged entry\<close>

lemma keyed_values_zip:
  assumes "keyedMap C m"
  shows "map (\<lambda>f. (fieldKey f, f)) (map snd m) = m"
  using assms by (auto simp: keyedMap_def intro!: map_idI)

lemma flatten_loop_keyed:
  assumes "foldM (selectionStep (\<lambda>ss. flattenSelectionSet n ss doc) doc) m S = Some m'"
    and "keyedMap flat m"
  shows "keyedMap flat m'"
proof (rule selectionLoop_keyed[OF _ _ assms(2) assms(1)])
  fix ss R assume "flattenSelectionSet n ss doc = Some R"
  then show "flat R" by (rule flatten_flat)
next
  fix ss R f assume "flattenSelectionSet n ss doc = Some R" "f \<in> set R" "isField f"
  then show "flat (SelectionSet f)" using flatten_flat flat_member by blast
qed

lemma flatten_loop_fixed:
  assumes "foldM (selectionStep (\<lambda>ss. flattenSelectionSet n ss doc) doc) m S = Some m'"
    and "keyedMap (\<lambda>c. flattenSelectionSet n c doc = Some c) m"
  shows "keyedMap (\<lambda>c. flattenSelectionSet n c doc = Some c) m'"
proof (rule selectionLoop_keyed[OF _ _ assms(2) assms(1)])
  fix ss R assume "flattenSelectionSet n ss doc = Some R"
  then show "flattenSelectionSet n R doc = Some R" by (rule flatten_idem)
next
  fix ss R f assume "flattenSelectionSet n ss doc = Some R" "f \<in> set R" "isField f"
  then show "flattenSelectionSet n (SelectionSet f) doc = Some (SelectionSet f)"
    using flatten_children_fixed by blast
qed

lemma flatten_children_fixed_pred:
  assumes "flattenSelectionSet (Suc n) S doc = Some R" "f \<in> set R"
  shows "flattenSelectionSet n (SelectionSet f) doc = Some (SelectionSet f)"
proof -
  let ?rec = "\<lambda>ss. flattenSelectionSet n ss doc"
  from assms(1) obtain m where m: "foldM (selectionStep ?rec doc) [] S = Some m"
    and R: "R = map snd m" by auto
  have "keyedMap (\<lambda>c. ?rec c = Some c) m" using flatten_loop_fixed[OF m] by simp
  then have "list_all (\<lambda>v. ?rec (SelectionSet v) = Some (SelectionSet v)) (map snd m)"
    by (rule keyedMap_values(3))
  then show ?thesis using assms(2) R by (auto simp: list_all_iff)
qed

lemma flatten_prefix:
  assumes "flattenSelectionSet n X doc = Some X'"
  shows "flattenSelectionSet n (X @ Y) doc = flattenSelectionSet n (X' @ Y) doc"
proof (cases n)
  case 0
  then show ?thesis by simp
next
  case (Suc k)
  let ?rec = "\<lambda>ss. flattenSelectionSet k ss doc"
  from assms Suc obtain m where m: "foldM (selectionStep ?rec doc) [] X = Some m"
    and X': "X' = map snd m" by auto
  have km: "keyedMap flat m" using flatten_loop_keyed[OF m] by simp
  have fl: "flat X'" using flatten_flat[OF assms] .
  have "\<forall>f \<in> set X'. isField f \<and> ?rec (SelectionSet f) = Some (SelectionSet f)"
    using flat_member[OF fl] flatten_children_fixed_pred[of k X doc X'] assms Suc
    by blast
  moreover have "distinct (map fst [] @ map fieldKey X')" using fl by (simp add: flat_def)
  ultimately have "foldM (selectionStep ?rec doc) [] X' = Some ([] @ map (\<lambda>f. (fieldKey f, f)) X')"
    by (rule replay_fields)
  then have "foldM (selectionStep ?rec doc) [] X' = Some m"
    using keyed_values_zip[OF km] X' by simp
  then show ?thesis using m Suc by (simp add: foldM_append)
qed


lemma in_mapAssign_distinct:
  assumes "distinct (map fst m)" "(k', e) \<in> set (mapAssign k v m)"
  shows "(k', e) = (k, v) \<or> ((k', e) \<in> set m \<and> k' \<noteq> k)"
  using assms
proof (induction m)
  case Nil
  then show ?case by simp
next
  case (Cons p m)
  obtain k0 v0 where p: "p = (k0, v0)" by (cases p)
  show ?case
  proof (cases "k0 = k")
    case True
    then have "k \<notin> fst ` set m" using Cons.prems(1) p by simp
    moreover have "(k', e) = (k, v) \<or> (k', e) \<in> set m" using Cons.prems(2) p True by simp
    ultimately show ?thesis by force
  next
    case False
    then have "(k', e) = (k0, v0) \<or> (k', e) \<in> set (mapAssign k v m)"
      using Cons.prems(2) p by simp
    then show ?thesis
    proof
      assume "(k', e) = (k0, v0)"
      then show ?thesis using False p by simp
    next
      assume "(k', e) \<in> set (mapAssign k v m)"
      then have "(k', e) = (k, v) \<or> ((k', e) \<in> set m \<and> k' \<noteq> k)"
        using Cons.IH Cons.prems(1) by simp
      then show ?thesis by auto
    qed
  qed
qed

lemma childrenOfKey_snoc:
  "childrenOfKey k (P @ [x]) = childrenOfKey k P @ (if fieldKey x = k then SelectionSet x else [])"
  by (simp add: childrenOfKey_def)

lemma childrenOfKey_none: "k \<notin> fieldKey ` set P \<Longrightarrow> childrenOfKey k P = []"
proof -
  assume "k \<notin> fieldKey ` set P"
  then have "filter (\<lambda>g. fieldKey g = k) P = []" by (auto simp: filter_empty_conv)
  then show ?thesis by (simp add: childrenOfKey_def)
qed

lemma keys_mapAssign_set: "fst ` set (mapAssign k v m) = insert k (fst ` set m)"
proof -
  have "set (map fst (mapAssign k v m)) = insert k (set (map fst m))"
    unfolding keys_mapAssign by auto
  then show ?thesis by simp
qed

lemma caseField_children:
  assumes PL: "\<And>X X' Y. rec X = Some X' \<Longrightarrow> rec (X @ Y) = rec (X' @ Y)"
    and km: "keyedMap C m"
    and keys: "fst ` set m = fieldKey ` set P"
    and inv: "\<forall>(k, e) \<in> set m. rec (childrenOfKey k P) = Some (SelectionSet e)"
    and r: "caseField rec m x = Some m'"
  shows "fst ` set m' = fieldKey ` set (P @ [x]) \<and>
         (\<forall>(k, e) \<in> set m'. rec (childrenOfKey k (P @ [x])) = Some (SelectionSet e))"
proof -
  have dm: "distinct (map fst m)" using km by (simp add: keyedMap_def)
  obtain v where m': "m' = mapAssign (fieldKey x) v m"
    and v: "rec (childrenOfKey (fieldKey x) P @ SelectionSet x) = Some (SelectionSet v)"
  proof (cases "map_of m (fieldKey x)")
    case None
    then obtain ss where ss: "rec (SelectionSet x) = Some ss"
      and 1: "m' = mapAssign (fieldKey x) (Field (Alias x) (Name x) (FieldAttrs x) ss) m"
      using r by (auto simp: caseField_simps)
    have "fieldKey x \<notin> fieldKey ` set P"
      using None keys by (simp add: map_of_eq_None_iff)
    then have "childrenOfKey (fieldKey x) P = []" by (rule childrenOfKey_none)
    then show ?thesis using that[OF 1] ss by simp
  next
    case (Some e)
    then obtain merged where mg: "rec (SelectionSet e @ SelectionSet x) = Some merged"
      and 1: "m' = mapAssign (fieldKey x) (setSelectionSet e merged) m"
      using r by (auto simp: caseField_simps)
    have "(fieldKey x, e) \<in> set m" using Some by (rule map_of_SomeD)
    then have "rec (childrenOfKey (fieldKey x) P) = Some (SelectionSet e)" using inv by blast
    then have "rec (childrenOfKey (fieldKey x) P @ SelectionSet x) = rec (SelectionSet e @ SelectionSet x)"
      by (rule PL)
    then show ?thesis using that[OF 1] mg by simp
  qed
  have k: "fst ` set m' = fieldKey ` set (P @ [x])"
    unfolding m' keys_mapAssign_set keys by auto
  have "rec (childrenOfKey k (P @ [x])) = Some (SelectionSet e)" if "(k, e) \<in> set m'" for k e
  proof -
    from that have "(k, e) = (fieldKey x, v) \<or> ((k, e) \<in> set m \<and> k \<noteq> fieldKey x)"
      unfolding m' by (rule in_mapAssign_distinct[OF dm])
    then show ?thesis
    proof
      assume "(k, e) = (fieldKey x, v)"
      then show ?thesis using v by (simp add: childrenOfKey_snoc)
    next
      assume "(k, e) \<in> set m \<and> k \<noteq> fieldKey x"
      then show ?thesis using inv by (auto simp: childrenOfKey_snoc)
    qed
  qed
  then show ?thesis using k by blast
qed

lemma fields_loop_children:
  assumes PL: "\<And>X X' Y. rec X = Some X' \<Longrightarrow> rec (X @ Y) = rec (X' @ Y)"
    and fl: "\<And>ss R. rec ss = Some R \<Longrightarrow> C R"
    and Q: "list_all isField Q"
    and km: "keyedMap C m"
    and keys: "fst ` set m = fieldKey ` set P"
    and inv: "\<forall>(k, e) \<in> set m. rec (childrenOfKey k P) = Some (SelectionSet e)"
    and r: "foldM (selectionStep rec doc) m Q = Some m'"
  shows "keyedMap C m' \<and> fst ` set m' = fieldKey ` set (P @ Q) \<and>
         (\<forall>(k, e) \<in> set m'. rec (childrenOfKey k (P @ Q)) = Some (SelectionSet e))"
  using Q km keys inv r
proof (induction Q arbitrary: m P)
  case Nil
  then show ?case by simp
next
  case (Cons x Q)
  from Cons.prems(5) obtain m1 where m1: "selectionStep rec doc m x = Some m1"
    and r1: "foldM (selectionStep rec doc) m1 Q = Some m'"
    by (auto split: option.splits)
  have x: "isField x" and Q': "list_all isField Q" using Cons.prems(1) by simp_all
  have c: "caseField rec m x = Some m1" using m1 x by (simp add: selectionStep_Field)
  have km1: "keyedMap C m1" using caseField_keyed[of rec C m x m1] fl Cons.prems(2) c by blast
  have st: "fst ` set m1 = fieldKey ` set (P @ [x]) \<and>
         (\<forall>(k, e) \<in> set m1. rec (childrenOfKey k (P @ [x])) = Some (SelectionSet e))"
    by (rule caseField_children[OF PL Cons.prems(2,3,4) c])
  have st1: "fst ` set m1 = fieldKey ` set (P @ [x])" using st by (rule conjunct1)
  have st2: "\<forall>(k, e) \<in> set m1. rec (childrenOfKey k (P @ [x])) = Some (SelectionSet e)"
    using st by (rule conjunct2)
  have "keyedMap C m' \<and> fst ` set m' = fieldKey ` set ((P @ [x]) @ Q) \<and>
         (\<forall>(k, e) \<in> set m'. rec (childrenOfKey k ((P @ [x]) @ Q)) = Some (SelectionSet e))"
    by (rule Cons.IH[OF Q' km1 st1 st2 r1])
  then show ?case by simp
qed

lemma flatten_fields_children:
  assumes S: "list_all isField S"
    and r: "flattenSelectionSet (Suc n) S doc = Some R"
    and f: "f \<in> set S"
  shows "\<exists>e \<in> set R. fieldKey e = fieldKey f \<and>
           flattenSelectionSet n (childrenOfKey (fieldKey f) S) doc = Some (SelectionSet e)"
proof -
  let ?rec = "\<lambda>ss. flattenSelectionSet n ss doc"
  from r obtain m where m: "foldM (selectionStep ?rec doc) [] S = Some m"
    and R: "R = map snd m" by auto
  have "keyedMap flat m \<and> fst ` set m = fieldKey ` set ([] @ S) \<and>
         (\<forall>(k, e) \<in> set m. ?rec (childrenOfKey k ([] @ S)) = Some (SelectionSet e))"
  proof (rule fields_loop_children[where rec = ?rec and m = "[]" and doc = doc, OF _ _ S _ _ _ m])
    fix X X' Y assume "?rec X = Some X'"
    then show "?rec (X @ Y) = ?rec (X' @ Y)" by (rule flatten_prefix)
  next
    fix ss R assume "?rec ss = Some R"
    then show "flat R" by (rule flatten_flat)
  qed simp_all
  then have km: "keyedMap flat m" and keys: "fst ` set m = fieldKey ` set S"
    and inv: "\<forall>(k, e) \<in> set m. ?rec (childrenOfKey k S) = Some (SelectionSet e)"
    by simp_all
  from f keys obtain e where e: "(fieldKey f, e) \<in> set m" by force
  then have "e \<in> set R" unfolding R by force
  moreover have "fieldKey e = fieldKey f" using km e by (auto simp: keyedMap_def)
  moreover have "?rec (childrenOfKey (fieldKey f) S) = Some (SelectionSet e)" using inv e by blast
  ultimately show ?thesis by blast
qed

subsection \<open>A selection set and its contributors flatten alike\<close>

lemma fragmentContents_None:
  "\<not> isField sel \<Longrightarrow> fragmentContents doc sel = None \<Longrightarrow> selectionStep rec doc m sel = Some m"
  by (cases sel) (auto simp: fragmentContents_def selectionStep_def split: option.splits)

lemma selectionStep_fragment_None:
  assumes c: "fragmentContents doc sel = Some body"
    and b: "rec body = None"
  shows "selectionStep rec doc m sel = None"
proof (cases sel)
  case (Field al n at ss)
  then show ?thesis using c by (simp add: fragmentContents_def)
next
  case (InlineFragment t at ss)
  then show ?thesis using c b by (simp add: fragmentContents_def selectionStep_def)
next
  case (FragmentSpread n at)
  then show ?thesis using c b by (auto simp: fragmentContents_def selectionStep_def)
qed

lemma selectionStep_contribution:
  "selectionStep (\<lambda>ss. flattenSelectionSet n ss doc) doc m sel =
     (case contribution n doc sel of
        None \<Rightarrow> None
      | Some c \<Rightarrow> foldM (selectionStep (\<lambda>ss. flattenSelectionSet n ss doc) doc) m c)"
proof (cases "isField sel")
  case True
  then show ?thesis by (simp add: contribution_def split: option.splits)
next
  case nf: False
  let ?rec = "\<lambda>ss. flattenSelectionSet n ss doc"
  show ?thesis
  proof (cases "fragmentContents doc sel")
    case None
    then show ?thesis using nf fragmentContents_None[OF nf None] by (simp add: contribution_def)
  next
    case (Some body)
    show ?thesis
    proof (cases "?rec body")
      case None
      then show ?thesis
        using nf Some selectionStep_fragment_None[of doc sel body ?rec m]
        by (simp add: contribution_def)
    next
      case B: (Some B)
      have fl: "flat B" using flatten_flat[OF B] .
      have fx: "\<forall>f \<in> set B. isField f \<and> ?rec (SelectionSet f) = Some (SelectionSet f)"
        using flat_member[OF fl] flatten_children_fixed[OF B] by blast
      have "selectionStep ?rec doc m sel = foldM (selectionStep ?rec doc) m B"
        using selectionStep_fragment[of doc sel body ?rec B m] Some B
          foldFragment_eq_loop[OF fx, of m doc] by simp
      then show ?thesis using nf Some B by (simp add: contribution_def)
    qed
  qed
qed

lemma contribution_fields:
  assumes "contribution n doc sel = Some c"
  shows "list_all isField c"
proof (cases "isField sel")
  case True
  then show ?thesis using assms by (auto simp: contribution_def)
next
  case False
  show ?thesis
  proof (cases "fragmentContents doc sel")
    case None
    then show ?thesis using assms False by (auto simp: contribution_def)
  next
    case (Some body)
    then have "flattenSelectionSet n body doc = Some c" using assms False by (simp add: contribution_def)
    then have "flat c" by (rule flatten_flat)
    then show ?thesis using flat_member by (auto simp: list_all_iff)
  qed
qed

lemma siblingFields_fields: "siblingFields n doc S = Some E \<Longrightarrow> list_all isField E"
proof (induction S arbitrary: E)
  case Nil
  then show ?case by simp
next
  case (Cons sel S)
  from Cons.prems obtain c E' where c: "contribution n doc sel = Some c"
    and E': "siblingFields n doc S = Some E'" and E: "E = c @ E'"
    by (auto split: option.splits)
  show ?case using contribution_fields[OF c] Cons.IH[OF E'] E by simp
qed

lemma selectionLoop_siblingFields:
  "foldM (selectionStep (\<lambda>ss. flattenSelectionSet n ss doc) doc) m S = Some m' \<Longrightarrow>
   \<exists>E. siblingFields n doc S = Some E \<and>
       foldM (selectionStep (\<lambda>ss. flattenSelectionSet n ss doc) doc) m E = Some m'"
proof (induction S arbitrary: m)
  case Nil
  then show ?case by simp
next
  case (Cons sel S)
  let ?step = "selectionStep (\<lambda>ss. flattenSelectionSet n ss doc) doc"
  from Cons.prems obtain m1 where m1: "?step m sel = Some m1"
    and r: "foldM ?step m1 S = Some m'" by (auto split: option.splits)
  from m1 obtain c where c: "contribution n doc sel = Some c" and mc: "foldM ?step m c = Some m1"
    using selectionStep_contribution[of n doc m sel] by (auto split: option.splits)
  from Cons.IH[OF r] obtain E where E: "siblingFields n doc S = Some E"
    and rE: "foldM ?step m1 E = Some m'" by blast
  have "foldM ?step m (c @ E) = Some m'" using mc rE by (simp add: foldM_append)
  then show ?case using c E by simp
qed

lemma flatten_siblingFields:
  assumes "flattenSelectionSet (Suc n) S doc = Some R"
  shows "\<exists>E. siblingFields n doc S = Some E \<and> flattenSelectionSet (Suc n) E doc = Some R"
proof -
  from assms obtain m where m: "foldM (selectionStep (\<lambda>ss. flattenSelectionSet n ss doc) doc) [] S = Some m"
    and R: "R = map snd m" by auto
  from selectionLoop_siblingFields[OF m] show ?thesis using R by auto
qed

lemma flatten_contributors_children:
  assumes "flattenSelectionSet (Suc n) S doc = Some R"
  shows "\<exists>E. siblingFields n doc S = Some E \<and>
           (\<forall>f \<in> set E. \<exists>e \<in> set R. fieldKey e = fieldKey f \<and>
              flattenSelectionSet n (childrenOfKey (fieldKey f) E) doc = Some (SelectionSet e))"
proof -
  from flatten_siblingFields[OF assms] obtain E where E: "siblingFields n doc S = Some E"
    and r: "flattenSelectionSet (Suc n) E doc = Some R" by blast
  have "list_all isField E" using E by (rule siblingFields_fields)
  then show ?thesis using flatten_fields_children[OF _ r] E by blast
qed

subsection \<open>Termination on an acyclic fragment graph\<close>

lemma boundedBy_mono_Suc: "boundedBy h doc S \<Longrightarrow> boundedBy (Suc h) doc S"
proof (induction h arbitrary: S)
  case 0
  then show ?case by simp
next
  case (Suc h)
  have "boundedSel (boundedBy (Suc h) doc) doc sel" if "boundedSel (boundedBy h doc) doc sel" for sel
    using that Suc.IH unfolding boundedSel_def
    by (cases sel) (auto split: option.splits)
  then show ?case using Suc.prems unfolding boundedBy.simps list_all_iff by blast
qed

lemma boundedBy_mono: "boundedBy h doc S \<Longrightarrow> h \<le> h' \<Longrightarrow> boundedBy h' doc S"
proof (induction h' arbitrary: h)
  case 0
  then show ?case by simp
next
  case (Suc h')
  show ?case
  proof (cases "h = Suc h'")
    case True
    then show ?thesis using Suc.prems by simp
  next
    case False
    then have "h \<le> h'" using Suc.prems by simp
    then have "boundedBy h' doc S" using Suc.IH Suc.prems(1) by blast
    then show ?thesis by (rule boundedBy_mono_Suc)
  qed
qed

lemma boundedSel_mono: "boundedSel (boundedBy h doc) doc sel \<Longrightarrow> h \<le> h' \<Longrightarrow> boundedSel (boundedBy h' doc) doc sel"
  unfolding boundedSel_def
  by (cases sel) (auto split: option.splits intro: boundedBy_mono)

lemma boundedBy_append: "boundedBy h doc (X @ Y) \<longleftrightarrow> boundedBy h doc X \<and> boundedBy h doc Y"
  by (cases h) simp_all

lemma boundedBy_member:
  assumes "boundedBy h doc R" "f \<in> set R" "isField f"
  shows "boundedBy h doc (SelectionSet f)"
proof (cases h)
  case 0
  then show ?thesis using assms by simp
next
  case (Suc k)
  then have "boundedSel (boundedBy k doc) doc f" using assms by (simp add: list_all_iff)
  then have "boundedBy k doc (SelectionSet f)" using assms(3) by (cases f) (simp_all add: boundedSel_def)
  then show ?thesis unfolding Suc by (rule boundedBy_mono_Suc)
qed

lemma list_bounded:
  assumes "\<forall>sel \<in> set S. \<exists>h. boundedSel (boundedBy h doc) doc sel"
  shows "\<exists>h. boundedBy h doc S"
  using assms
proof (induction S)
  case Nil
  then show ?case by (intro exI[of _ 0]) simp
next
  case (Cons sel S)
  from Cons obtain h1 where h1: "boundedBy h1 doc S" by auto
  from Cons.prems obtain h2 where h2: "boundedSel (boundedBy h2 doc) doc sel" by auto
  let ?h = "max h1 h2"
  have "boundedBy (Suc ?h) doc S" using h1 by (rule boundedBy_mono) simp
  moreover have "boundedSel (boundedBy ?h doc) doc sel" using h2 by (rule boundedSel_mono) simp
  ultimately have "boundedBy (Suc ?h) doc (sel # S)" by simp
  then show ?case by blast
qed

lemma selection_bounded:
  assumes "\<forall>b \<in> set (spreadNames sel). \<forall>fd. findFragmentDefinition doc b = Some fd \<longrightarrow>
              (\<exists>h. boundedBy h doc (FragSelectionSet fd))"
  shows "\<exists>h. boundedSel (boundedBy h doc) doc sel"
  using assms
proof (induction sel)
  case (Field a n r ss)
  have "\<forall>x \<in> set ss. \<exists>h. boundedSel (boundedBy h doc) doc x"
  proof
    fix x assume x: "x \<in> set ss"
    then have "set (spreadNames x) \<subseteq> set (spreadNames (Field a n r ss))" by auto
    then show "\<exists>h. boundedSel (boundedBy h doc) doc x" using Field.IH[OF x] Field.prems by blast
  qed
  then obtain h where "boundedBy h doc ss" using list_bounded by blast
  then show ?case by (intro exI[of _ h]) (simp add: boundedSel_def)
next
  case (InlineFragment t r ss)
  have "\<forall>x \<in> set ss. \<exists>h. boundedSel (boundedBy h doc) doc x"
  proof
    fix x assume x: "x \<in> set ss"
    then have "set (spreadNames x) \<subseteq> set (spreadNames (InlineFragment t r ss))" by auto
    then show "\<exists>h. boundedSel (boundedBy h doc) doc x" using InlineFragment.IH[OF x] InlineFragment.prems by blast
  qed
  then obtain h where "boundedBy h doc ss" using list_bounded by blast
  then show ?case by (intro exI[of _ h]) (simp add: boundedSel_def)
next
  case (FragmentSpread n r)
  show ?case
  proof (cases "findFragmentDefinition doc n")
    case None
    then show ?thesis by (simp add: boundedSel_def)
  next
    case (Some fd)
    then obtain h where "boundedBy h doc (FragSelectionSet fd)" using FragmentSpread by auto
    then show ?thesis using Some by (intro exI[of _ h]) (simp add: boundedSel_def)
  qed
qed

lemma findFragmentDefinition_SomeD:
  "findFragmentDefinition doc a = Some fd \<Longrightarrow> fd \<in> set (Fragments doc) \<and> FragName fd = a"
  by (auto simp: findFragmentDefinition_def find_Some_iff)

lemma finite_fragmentRefs: "finite (fragmentRefs doc)"
proof -
  have "fragmentRefs doc \<subseteq>
        (\<Union>fd \<in> set (Fragments doc). set (concat (map spreadNames (FragSelectionSet fd))))
          \<times> FragName ` set (Fragments doc)"
    unfolding fragmentRefs_def using findFragmentDefinition_SomeD by fastforce
  moreover have "finite ((\<Union>fd \<in> set (Fragments doc). set (concat (map spreadNames (FragSelectionSet fd))))
          \<times> FragName ` set (Fragments doc))" by blast
  ultimately show ?thesis by (rule finite_subset)
qed

lemma fragments_bounded:
  assumes "acyclic (fragmentRefs doc)"
  shows "\<forall>fd. findFragmentDefinition doc a = Some fd \<longrightarrow> (\<exists>h. boundedBy h doc (FragSelectionSet fd))"
proof -
  have "wf (fragmentRefs doc)" using finite_fragmentRefs assms by (rule finite_acyclic_wf)
  then show ?thesis
  proof (induction a rule: wf_induct_rule)
    case (less a)
    show ?case
    proof (intro allI impI)
      fix fd assume fd: "findFragmentDefinition doc a = Some fd"
      have "\<forall>sel \<in> set (FragSelectionSet fd). \<exists>h. boundedSel (boundedBy h doc) doc sel"
      proof
        fix sel assume sel: "sel \<in> set (FragSelectionSet fd)"
        have "\<forall>b \<in> set (spreadNames sel). \<forall>fd'. findFragmentDefinition doc b = Some fd' \<longrightarrow>
                (\<exists>h. boundedBy h doc (FragSelectionSet fd'))"
        proof
          fix b assume "b \<in> set (spreadNames sel)"
          then have "(b, a) \<in> fragmentRefs doc" using sel fd unfolding fragmentRefs_def by auto
          then show "\<forall>fd'. findFragmentDefinition doc b = Some fd' \<longrightarrow>
                (\<exists>h. boundedBy h doc (FragSelectionSet fd'))" by (rule less.IH)
        qed
        then show "\<exists>h. boundedSel (boundedBy h doc) doc sel" by (rule selection_bounded)
      qed
      then show "\<exists>h. boundedBy h doc (FragSelectionSet fd)" by (rule list_bounded)
    qed
  qed
qed

lemma acyclic_bounded:
  assumes "acyclic (fragmentRefs doc)"
  shows "\<exists>h. boundedBy h doc S"
proof (rule list_bounded, rule ballI, rule selection_bounded, rule ballI)
  fix sel b assume "sel \<in> set S" "b \<in> set (spreadNames sel)"
  show "\<forall>fd. findFragmentDefinition doc b = Some fd \<longrightarrow> (\<exists>h. boundedBy h doc (FragSelectionSet fd))"
    using fragments_bounded[OF assms] .
qed


lemma keyedMap_False: "keyedMap (\<lambda>_. False) m \<Longrightarrow> m = []"
  by (cases m) (auto simp: keyedMap_def)

lemma keyedMap_bounded:
  assumes "keyedMap (boundedBy k doc) m"
  shows "boundedBy (Suc k) doc (map snd m)"
proof -
  have "boundedSel (boundedBy k doc) doc v" if "v \<in> set (map snd m)" for v
  proof -
    have "isField v" "boundedBy k doc (SelectionSet v)"
      using keyedMap_values(2,3)[OF assms] that by (auto simp: list_all_iff)
    then show ?thesis by (cases v) (simp_all add: boundedSel_def)
  qed
  then show ?thesis by (simp add: list_all_iff)
qed

lemma flatten_bounded: "flattenSelectionSet (Suc n) S doc = Some R \<Longrightarrow> boundedBy n doc R"
proof (induction n arbitrary: S R)
  case 0
  then obtain m where m: "foldM (selectionStep (\<lambda>ss. None) doc) [] S = Some m"
    and R: "R = map snd m" by auto
  have "keyedMap (\<lambda>_. False) m"
    by (rule selectionLoop_keyed[OF _ _ keyedMap_empty m]) simp_all
  then show ?case using R keyedMap_False by auto
next
  case (Suc n)
  let ?rec = "\<lambda>ss. flattenSelectionSet (Suc n) ss doc"
  from Suc.prems obtain m where m: "foldM (selectionStep ?rec doc) [] S = Some m"
    and R: "R = map snd m" by auto
  have "keyedMap (boundedBy n doc) m"
  proof (rule selectionLoop_keyed[OF _ _ keyedMap_empty m])
    fix ss R' assume "?rec ss = Some R'"
    then show "boundedBy n doc R'" by (rule Suc.IH)
  next
    fix ss R' f assume "?rec ss = Some R'" "f \<in> set R'" "isField f"
    then show "boundedBy n doc (SelectionSet f)" using Suc.IH boundedBy_member by blast
  qed
  then show ?case unfolding R by (rule keyedMap_bounded)
qed

lemma foldFragment_total:
  assumes tot: "\<And>X. C X \<Longrightarrow> \<exists>R. rec X = Some R"
    and out: "\<And>ss R. rec ss = Some R \<Longrightarrow> C R"
    and app: "\<And>X Y. C X \<Longrightarrow> C Y \<Longrightarrow> C (X @ Y)"
    and B: "\<forall>b \<in> set B. isField b \<longrightarrow> C (SelectionSet b)"
    and m: "keyedMap C m"
  shows "\<exists>m'. foldM (foldFragmentSelection rec) m B = Some m'"
  using B m
proof (induction B arbitrary: m)
  case Nil
  then show ?case by simp
next
  case (Cons b B)
  have "\<exists>m1. foldFragmentSelection rec m b = Some m1"
  proof (cases "isField b")
    case False
    then show ?thesis by (simp add: foldFragmentSelection_simps)
  next
    case True
    show ?thesis
    proof (cases "map_of m (fieldKey b)")
      case None
      then show ?thesis using True by (simp add: foldFragmentSelection_simps)
    next
      case (Some e)
      have "C (SelectionSet e)" using keyedMap_lookup[OF Cons.prems(2) Some] by simp
      moreover have "C (SelectionSet b)" using Cons.prems(1) True by simp
      ultimately have "C (SelectionSet e @ SelectionSet b)" by (rule app)
      then obtain R where "rec (SelectionSet e @ SelectionSet b) = Some R" using tot by blast
      then show ?thesis using True Some by (simp add: foldFragmentSelection_simps)
    qed
  qed
  then obtain m1 where m1: "foldFragmentSelection rec m b = Some m1" by blast
  have "keyedMap C m1"
    using foldFragmentSelection_keyed[of rec C b m m1] out Cons.prems m1 by auto
  then obtain m' where "foldM (foldFragmentSelection rec) m1 B = Some m'"
    using Cons.IH Cons.prems(1) by auto
  then show ?case using m1 by simp
qed

lemma selectionStep_total:
  assumes tot: "\<And>X. C X \<Longrightarrow> \<exists>R. rec X = Some R"
    and out: "\<And>ss R. rec ss = Some R \<Longrightarrow> C R"
    and mem: "\<And>R f. C R \<Longrightarrow> f \<in> set R \<Longrightarrow> isField f \<Longrightarrow> C (SelectionSet f)"
    and app: "\<And>X Y. C X \<Longrightarrow> C Y \<Longrightarrow> C (X @ Y)"
    and s: "boundedSel C doc sel"
    and m: "keyedMap C m"
  shows "\<exists>m'. selectionStep rec doc m sel = Some m'"
proof (cases sel)
  case (Field a n r ss)
  then have c: "C (SelectionSet sel)" using s by (simp add: boundedSel_def)
  have "\<exists>m'. caseField rec m sel = Some m'"
  proof (cases "map_of m (fieldKey sel)")
    case None
    from tot[OF c] obtain R where "rec (SelectionSet sel) = Some R" by blast
    then show ?thesis using None by (simp add: caseField_simps)
  next
    case (Some e)
    have "C (SelectionSet e)" using keyedMap_lookup[OF m Some] by simp
    then have "C (SelectionSet e @ SelectionSet sel)" using c by (rule app)
    then obtain R where "rec (SelectionSet e @ SelectionSet sel) = Some R" using tot by blast
    then show ?thesis using Some by (simp add: caseField_simps)
  qed
  then show ?thesis using Field by (simp add: selectionStep_def)
next
  case (InlineFragment t r ss)
  then have "C ss" using s by (simp add: boundedSel_def)
  then obtain B where B: "rec ss = Some B" using tot by blast
  have "\<forall>b \<in> set B. isField b \<longrightarrow> C (SelectionSet b)" using mem out[OF B] by blast
  then have "\<exists>m'. foldM (foldFragmentSelection rec) m B = Some m'"
    using foldFragment_total[of C rec B m] tot out app m by blast
  then show ?thesis using InlineFragment B by (simp add: selectionStep_def)
next
  case (FragmentSpread n r)
  show ?thesis
  proof (cases "findFragmentDefinition doc n")
    case None
    then show ?thesis using FragmentSpread by (simp add: selectionStep_def)
  next
    case (Some fd)
    then have "C (FragSelectionSet fd)" using s FragmentSpread by (simp add: boundedSel_def)
    then obtain B where B: "rec (FragSelectionSet fd) = Some B" using tot by blast
    have "\<forall>b \<in> set B. isField b \<longrightarrow> C (SelectionSet b)" using mem out[OF B] by blast
    then have "\<exists>m'. foldM (foldFragmentSelection rec) m B = Some m'"
      using foldFragment_total[of C rec B m] tot out app m by blast
    then show ?thesis using FragmentSpread Some B by (simp add: selectionStep_def)
  qed
qed

lemma selectionLoop_total:
  assumes tot: "\<And>X. C X \<Longrightarrow> \<exists>R. rec X = Some R"
    and out: "\<And>ss R. rec ss = Some R \<Longrightarrow> C R"
    and mem: "\<And>R f. C R \<Longrightarrow> f \<in> set R \<Longrightarrow> isField f \<Longrightarrow> C (SelectionSet f)"
    and app: "\<And>X Y. C X \<Longrightarrow> C Y \<Longrightarrow> C (X @ Y)"
    and S: "list_all (boundedSel C doc) S"
    and m: "keyedMap C m"
  shows "\<exists>m'. foldM (selectionStep rec doc) m S = Some m'"
  using S m
proof (induction S arbitrary: m)
  case Nil
  then show ?case by simp
next
  case (Cons sel S)
  have s: "boundedSel C doc sel" and S': "list_all (boundedSel C doc) S"
    using Cons.prems(1) by simp_all
  obtain m1 where m1: "selectionStep rec doc m sel = Some m1"
    using selectionStep_total[of C rec doc sel m] tot out mem app s Cons.prems(2) by blast
  have "keyedMap C m1"
    using selectionStep_keyed[of rec C m doc sel m1] out mem Cons.prems(2) m1 by blast
  then obtain m' where "foldM (selectionStep rec doc) m1 S = Some m'"
    using Cons.IH[OF S'] by blast
  then show ?case using m1 by simp
qed

lemma flatten_total_bounded:
  "boundedBy h doc S \<Longrightarrow> \<exists>R. flattenSelectionSet (Suc h) S doc = Some R"
proof (induction h arbitrary: S)
  case 0
  then show ?case by simp
next
  case (Suc h)
  let ?rec = "\<lambda>ss. flattenSelectionSet (Suc h) ss doc"
  have "\<exists>m'. foldM (selectionStep ?rec doc) [] S = Some m'"
  proof (rule selectionLoop_total[where C = "boundedBy h doc"])
    fix X assume "boundedBy h doc X"
    then show "\<exists>R. ?rec X = Some R" by (rule Suc.IH)
  next
    fix ss R assume "?rec ss = Some R"
    then show "boundedBy h doc R" by (rule flatten_bounded)
  next
    fix R f assume "boundedBy h doc R" "f \<in> set R" "isField f"
    then show "boundedBy h doc (SelectionSet f)" by (rule boundedBy_member)
  next
    fix X Y assume "boundedBy h doc X" "boundedBy h doc Y"
    then show "boundedBy h doc (X @ Y)" by (simp add: boundedBy_append)
  next
    show "list_all (boundedSel (boundedBy h doc) doc) S" using Suc.prems by simp
  next
    show "keyedMap (boundedBy h doc) []" by simp
  qed
  then show ?case by auto
qed

lemma flatten_terminates:
  assumes "acyclic (fragmentRefs doc)"
  shows "\<exists>n R. flattenSelectionSet n S doc = Some R"
proof -
  from acyclic_bounded[OF assms] obtain h where "boundedBy h doc S" by blast
  then show ?thesis using flatten_total_bounded by blast
qed

lemma flatten_loop_diverges:
  "flattenSelectionSet n [FragmentSpread ''Loop'' ()] loopDocument = None"
proof (induction n)
  case 0
  then show ?case by simp
next
  case (Suc n)
  have "findFragmentDefinition loopDocument ''Loop'' =
          Some \<lparr>FragName = ''Loop'', FragTypeCondition = ''User'',
                FragSelectionSet = [FragmentSpread ''Loop'' ()]\<rparr>"
    by (simp add: findFragmentDefinition_def loopDocument_def)
  then show ?case using Suc by (simp add: selectionStep_def)
qed

lemma flatten_terminates_stable:
  assumes "acyclic (fragmentRefs doc)"
  shows "\<exists>n R. \<forall>k \<ge> n. flattenSelectionSet k S doc = Some R"
proof -
  from flatten_terminates[OF assms] obtain n R where "flattenSelectionSet n S doc = Some R" by blast
  then have "\<forall>k \<ge> n. flattenSelectionSet k S doc = Some R" using flatten_mono by blast
  then show ?thesis by blast
qed

lemma chainDocument_acyclic: "acyclic (fragmentRefs chainDocument)"
proof -
  have "fragmentRefs chainDocument \<subseteq> {(''B'', ''A'')}"
    unfolding fragmentRefs_def
    by (auto dest!: findFragmentDefinition_SomeD simp: chainDocument_def leaf_def)
  moreover have "acyclic {(''B'', ''A'')}"
  proof -
    have "acyclic ({} :: (string \<times> string) set)" by (simp add: acyclic_def)
    then show ?thesis by (simp add: acyclic_insert)
  qed
  ultimately show ?thesis by (rule acyclic_subset[rotated])
qed


subsection \<open>The fixture with empty aliases\<close>

lemma analyse_bareDocument:
  "AnalyseDocument 4 (\<lambda>_. True) bareDocument
     = Some (Inr [\<lparr>OperationName = ''GetOrder'', Complexity = 5, FlattenedComplexity = 3\<rparr>])"
  by code_simp

subsection \<open>The flattening writes into new objects only\<close>

lemma unchanged_refl [simp]: "unchanged h h"
  by (simp add: unchanged_def)

lemma unchanged_length: "unchanged h h' \<Longrightarrow> length h \<le> length h'"
proof -
  assume "unchanged h h'"
  then have "length (take (length h) h') = length h" by (simp add: unchanged_def)
  then show ?thesis by simp
qed

lemma unchanged_trans: "unchanged h0 h1 \<Longrightarrow> unchanged h1 h2 \<Longrightarrow> unchanged h0 h2"
proof -
  assume a: "unchanged h0 h1" and b: "unchanged h1 h2"
  have le: "length h0 \<le> length h1" using a by (rule unchanged_length)
  have "take (length h0) h2 = take (length h0) (take (length h1) h2)" using le by (simp add: min_def)
  also have "\<dots> = take (length h0) h1" using b by (simp add: unchanged_def)
  also have "\<dots> = h0" using a by (simp add: unchanged_def)
  finally show ?thesis by (simp add: unchanged_def)
qed

lemma unchanged_append: "unchanged h0 h \<Longrightarrow> unchanged h0 (h @ ext)"
proof -
  assume a: "unchanged h0 h"
  have "length h0 \<le> length h" using a by (rule unchanged_length)
  then show ?thesis using a by (simp add: unchanged_def)
qed

lemma unchanged_update: "unchanged h0 h \<Longrightarrow> length h0 \<le> i \<Longrightarrow> unchanged h0 (h[i := v])"
  by (simp add: unchanged_def)

lemma freshMap_lookup: "freshMap h0 fm \<Longrightarrow> map_of fm k = Some a \<Longrightarrow> length h0 \<le> a"
  by (auto simp: freshMap_def dest: map_of_SomeD)

lemma freshMap_assign: "freshMap h0 fm \<Longrightarrow> length h0 \<le> a \<Longrightarrow> freshMap h0 (mapAssign k a fm)"
  using set_mapAssign_subset[of k a fm] by (auto simp: freshMap_def)

lemma frameRecD:
  assumes "frameRec rec" "rec h ss = (r, h')"
  shows "unchanged h h'" and "r = Some R \<Longrightarrow> a \<in> set R \<Longrightarrow> length h \<le> a"
  using assms unfolding frameRec_def by blast+

lemma mergeExisting_frame:
  assumes rec: "frameRec rec" and h: "unchanged h0 h" and e: "length h0 \<le> existing"
    and r: "mergeExisting rec fm h existing ss = (r, h')"
  shows "unchanged h0 h' \<and> (\<forall>fm'. r = Some fm' \<longrightarrow> fm' = fm)"
proof (cases "deref h existing")
  case None
  then show ?thesis using r h by (auto simp: mergeExisting_def)
next
  case (Some obj)
  show ?thesis
  proof (cases obj)
    case (FieldObj ea en eat ess)
    obtain r1 h1 where r1: "rec h (ess @ ss) = (r1, h1)" by (cases "rec h (ess @ ss)")
    have u1: "unchanged h0 h1" using unchanged_trans[OF h frameRecD(1)[OF rec r1]] .
    show ?thesis
    proof (cases r1)
      case None
      then show ?thesis using r Some FieldObj r1 u1 by (auto simp: mergeExisting_def)
    next
      case merged: (Some merged)
      show ?thesis
      proof (cases "deref h1 existing")
        case None
        then show ?thesis using r Some FieldObj r1 merged u1 by (auto simp: mergeExisting_def)
      next
        case o1: (Some obj1)
        show ?thesis
        proof (cases obj1)
          case f1: (FieldObj ea1 en1 eat1 ess1)
          have "h' = h1[existing := FieldObj ea1 en1 eat1 merged]" and "r = Some fm"
            using r Some FieldObj r1 merged o1 f1 by (simp_all add: mergeExisting_def)
          then show ?thesis using unchanged_update[OF u1 e] by simp
        qed (use r Some FieldObj r1 merged o1 u1 in \<open>auto simp: mergeExisting_def\<close>)
      qed
    qed
  qed (use r Some h in \<open>auto simp: mergeExisting_def\<close>)
qed

lemma caseFieldH_frame:
  assumes rec: "frameRec rec" and h: "unchanged h0 h" and fm: "freshMap h0 fm"
    and r: "caseFieldH rec fm h al name attrs ss = (r, h')"
  shows "unchanged h0 h' \<and> (\<forall>fm'. r = Some fm' \<longrightarrow> freshMap h0 fm')"
proof (cases "map_of fm (keyOf al name)")
  case (Some existing)
  then have "mergeExisting rec fm h existing ss = (r, h')" using r by (simp add: caseFieldH_def)
  then show ?thesis
    using mergeExisting_frame[OF rec h freshMap_lookup[OF fm Some]] fm by blast
next
  case None
  obtain r1 h1 where r1: "rec h ss = (r1, h1)" by (cases "rec h ss")
  have u: "unchanged h h1" using frameRecD(1)[OF rec r1] .
  have u1: "unchanged h0 h1" using unchanged_trans[OF h u] .
  show ?thesis
  proof (cases r1)
    case None
    then show ?thesis using r \<open>map_of fm (keyOf al name) = None\<close> r1 u1 by (auto simp: caseFieldH_def)
  next
    case (Some fl)
    have 1: "h' = h1 @ [FieldObj al name attrs fl]" and 2: "r = Some (mapAssign (keyOf al name) (length h1) fm)"
      using r None r1 Some by (simp_all add: caseFieldH_def)
    have "length h0 \<le> length h1" using u1 by (rule unchanged_length)
    then have "freshMap h0 (mapAssign (keyOf al name) (length h1) fm)" using fm by (intro freshMap_assign)
    then show ?thesis using 1 2 unchanged_append[OF u1] by simp
  qed
qed

lemma foldFragmentSelectionH_frame:
  assumes rec: "frameRec rec" and h: "unchanged h0 h" and fm: "freshMap h0 fm"
    and a: "length h0 \<le> fragSel"
    and r: "foldFragmentSelectionH rec fm h fragSel = (r, h')"
  shows "unchanged h0 h' \<and> (\<forall>fm'. r = Some fm' \<longrightarrow> freshMap h0 fm')"
proof (cases "deref h fragSel")
  case None
  then show ?thesis using r h fm by (auto simp: foldFragmentSelectionH_def)
next
  case (Some obj)
  show ?thesis
  proof (cases obj)
    case (FieldObj al name attrs ss)
    show ?thesis
    proof (cases "map_of fm (keyOf al name)")
      case None
      then have "h' = h" "r = Some (mapAssign (keyOf al name) fragSel fm)"
        using r Some FieldObj by (simp_all add: foldFragmentSelectionH_def)
      then show ?thesis using h freshMap_assign[OF fm a] by simp
    next
      case ex: (Some existing)
      then have "mergeExisting rec fm h existing ss = (r, h')"
        using r Some FieldObj by (simp add: foldFragmentSelectionH_def)
      then show ?thesis
        using mergeExisting_frame[OF rec h freshMap_lookup[OF fm ex]] fm by blast
    qed
  qed (use r Some h fm in \<open>auto simp: foldFragmentSelectionH_def\<close>)
qed

lemma foldH_invariant:
  assumes pres: "\<And>s h x r h'. x \<in> set xs \<Longrightarrow> P s h \<Longrightarrow> f s h x = (r, h') \<Longrightarrow>
                   Q h' \<and> (\<forall>s'. r = Some s' \<longrightarrow> P s' h')"
    and PQ: "\<And>s h. P s h \<Longrightarrow> Q h"
    and init: "P s h"
    and run: "foldH f s h xs = (r, h')"
  shows "Q h' \<and> (\<forall>s'. r = Some s' \<longrightarrow> P s' h')"
  using pres init run
proof (induction xs arbitrary: s h)
  case Nil
  then show ?case using PQ by auto
next
  case (Cons x xs)
  obtain r1 h1 where r1: "f s h x = (r1, h1)" by (cases "f s h x")
  have st: "Q h1 \<and> (\<forall>s'. r1 = Some s' \<longrightarrow> P s' h1)"
    by (rule Cons.prems(1)[of x s h r1 h1]) (simp_all add: Cons.prems(2) r1)
  show ?case
  proof (cases r1)
    case None
    then show ?thesis using Cons.prems(3) r1 st by simp
  next
    case (Some s1)
    then have run1: "foldH f s1 h1 xs = (r, h')" using Cons.prems(3) r1 by simp
    have p1: "P s1 h1" using st Some by simp
    show ?thesis
    proof (rule Cons.IH[OF _ p1 run1])
      fix s h x r h' assume "x \<in> set xs" "P s h" "f s h x = (r, h')"
      then show "Q h' \<and> (\<forall>s'. r = Some s' \<longrightarrow> P s' h')"
        using Cons.prems(1)[of x s h r h'] by simp
    qed
  qed
qed

lemma foldFragmentH_frame:
  assumes rec: "frameRec rec" and h: "unchanged h0 h" and fm: "freshMap h0 fm"
    and r: "foldFragmentH rec fm h ss = (r, h')"
  shows "unchanged h0 h' \<and> (\<forall>fm'. r = Some fm' \<longrightarrow> freshMap h0 fm')"
proof -
  obtain r1 h1 where r1: "rec h ss = (r1, h1)" by (cases "rec h ss")
  have u: "unchanged h h1" using frameRecD(1)[OF rec r1] .
  have u1: "unchanged h0 h1" using unchanged_trans[OF h u] .
  show ?thesis
  proof (cases r1)
    case None
    then show ?thesis using r r1 u1 by (auto simp: foldFragmentH_def)
  next
    case (Some frags)
    have run: "foldH (foldFragmentSelectionH rec) fm h1 frags = (r, h')"
      using r r1 Some by (simp add: foldFragmentH_def)
    have fresh: "length h0 \<le> a" if "a \<in> set frags" for a
      using frameRecD(2)[OF rec r1 Some that] unchanged_length[OF h] by simp
    have "unchanged h0 h' \<and> (\<forall>s'. r = Some s' \<longrightarrow> freshMap h0 s' \<and> unchanged h0 h')"
    proof (rule foldH_invariant[where P = "\<lambda>s h. freshMap h0 s \<and> unchanged h0 h"
            and Q = "unchanged h0", OF _ _ _ run])
      fix s h x r h'
      assume "x \<in> set frags" "freshMap h0 s \<and> unchanged h0 h"
        "foldFragmentSelectionH rec s h x = (r, h')"
      then show "unchanged h0 h' \<and> (\<forall>s'. r = Some s' \<longrightarrow> freshMap h0 s' \<and> unchanged h0 h')"
        using foldFragmentSelectionH_frame[OF rec, of h0 h s x r h'] fresh by blast
    next
      show "freshMap h0 fm \<and> unchanged h0 h1" using fm u1 by simp
    qed simp
    then show ?thesis by blast
  qed
qed

lemma selectionStepH_frame:
  assumes rec: "frameRec rec" and h: "unchanged h0 h" and fm: "freshMap h0 fm"
    and r: "selectionStepH rec doc fm h sel = (r, h')"
  shows "unchanged h0 h' \<and> (\<forall>fm'. r = Some fm' \<longrightarrow> freshMap h0 fm')"
proof (cases "deref h sel")
  case None
  then show ?thesis using r h fm by (auto simp: selectionStepH_def)
next
  case (Some obj)
  show ?thesis
  proof (cases obj)
    case (FieldObj al name attrs ss)
    then have "caseFieldH rec fm h al name attrs ss = (r, h')"
      using r Some by (simp add: selectionStepH_def)
    then show ?thesis by (rule caseFieldH_frame[OF rec h fm])
  next
    case (InlineFragmentObj t attrs ss)
    then have "foldFragmentH rec fm h ss = (r, h')"
      using r Some by (simp add: selectionStepH_def)
    then show ?thesis by (rule foldFragmentH_frame[OF rec h fm])
  next
    case (FragmentSpreadObj name attrs)
    show ?thesis
    proof (cases "findFragmentDefinitionH h doc name")
      case None
      then show ?thesis using r Some FragmentSpreadObj h fm by (auto simp: selectionStepH_def)
    next
      case fd: (Some fragDef)
      show ?thesis
      proof (cases "deref h fragDef")
        case None
        then show ?thesis using r Some FragmentSpreadObj fd h fm by (auto simp: selectionStepH_def)
      next
        case d: (Some dobj)
        show ?thesis
        proof (cases dobj)
          case (FragmentDefinitionObj n t ss)
          then have "foldFragmentH rec fm h ss = (r, h')"
            using r Some FragmentSpreadObj fd d by (simp add: selectionStepH_def)
          then show ?thesis by (rule foldFragmentH_frame[OF rec h fm])
        qed (use r Some FragmentSpreadObj fd d h fm in \<open>auto simp: selectionStepH_def\<close>)
      qed
    qed
  qed (use r Some h fm in \<open>auto simp: selectionStepH_def\<close>)
qed

lemma flattenSelectionSetH_frameRec:
  assumes ord: "iterationOrder ord"
  shows "frameRec (\<lambda>(h :: 'a heap) ss. flattenSelectionSetH ord n h ss doc)"
proof (induction n)
  case 0
  then show ?case by (simp add: frameRec_def)
next
  case (Suc n)
  let ?rec = "\<lambda>(h :: 'a heap) ss. flattenSelectionSetH ord n h ss doc"
  show ?case
    unfolding frameRec_def
  proof (intro allI impI)
    fix h0 :: "'a heap" and ss r h'
    assume a: "flattenSelectionSetH ord (Suc n) h0 ss doc = (r, h')"
    obtain r1 h1 where run: "foldH (selectionStepH ?rec doc) [] h0 ss = (r1, h1)"
      by (cases "foldH (selectionStepH ?rec doc) [] h0 ss")
    have inv: "unchanged h0 h1 \<and> (\<forall>s'. r1 = Some s' \<longrightarrow> freshMap h0 s' \<and> unchanged h0 h1)"
    proof (rule foldH_invariant[where P = "\<lambda>s h. freshMap h0 s \<and> unchanged h0 h"
            and Q = "unchanged h0", OF _ _ _ run])
      fix s h x r h'
      assume "x \<in> set ss" "freshMap h0 s \<and> unchanged h0 h"
        "selectionStepH ?rec doc s h x = (r, h')"
      then show "unchanged h0 h' \<and> (\<forall>s'. r = Some s' \<longrightarrow> freshMap h0 s' \<and> unchanged h0 h')"
        using selectionStepH_frame[OF Suc, of h0 h s doc x r h'] by blast
    next
      show "freshMap h0 [] \<and> unchanged h0 h0" by (simp add: freshMap_def)
    qed simp
    show "unchanged h0 h' \<and> (\<forall>R. r = Some R \<longrightarrow> (\<forall>a \<in> set R. length h0 \<le> a))"
    proof (cases r1)
      case None
      then show ?thesis using a run inv by simp
    next
      case (Some fieldMap)
      then have h': "h' = h1" and r: "r = Some (ord h1 (map snd fieldMap))" using a run by auto
      have "mset (ord h1 (map snd fieldMap)) = mset (map snd fieldMap)"
        using ord by (simp add: iterationOrder_def)
      then have s: "set (ord h1 (map snd fieldMap)) = set (map snd fieldMap)" by (rule mset_eq_setD)
      have "freshMap h0 fieldMap" using inv Some by simp
      then have "\<forall>a \<in> set (map snd fieldMap). length h0 \<le> a" by (auto simp: freshMap_def)
      then show ?thesis using inv h' r s by simp
    qed
  qed
qed

lemma flattenH_unchanged:
  assumes ord: "iterationOrder ord"
  shows "unchanged h (snd (flattenH ord n h doc op))"
proof (cases "deref h op")
  case None
  then show ?thesis by (simp add: flattenH_def)
next
  case (Some obj)
  show ?thesis
  proof (cases obj)
    case (OperationDefinitionObj kind name vars dirs ss pos com)
    obtain r1 h1 where r1: "flattenSelectionSetH ord n h ss doc = (r1, h1)"
      by (cases "flattenSelectionSetH ord n h ss doc")
    have u: "unchanged h h1" using frameRecD(1)[OF flattenSelectionSetH_frameRec[OF ord] r1] .
    show ?thesis
      using Some OperationDefinitionObj r1 u unchanged_append[OF u]
      by (cases r1) (simp_all add: flattenH_def)
  qed (use Some in \<open>simp_all add: flattenH_def\<close>)
qed

subsection \<open>The iteration order of the map does not matter\<close>

lemma flattenSelectionSetOrd_id:
  "flattenSelectionSetOrd (\<lambda>S xs. xs) n S doc = flattenSelectionSet n S doc"
  by (induction n arbitrary: S) simp_all

lemma sameUpToOrder_refl [simp]: "sameUpToOrder X X"
  by (simp add: sameUpToOrder_def)

lemma sameUpToOrder_sym: "sameUpToOrder X Y \<Longrightarrow> sameUpToOrder Y X"
  by (simp add: sameUpToOrder_def)

lemma sameUpToOrder_trans: "sameUpToOrder X Y \<Longrightarrow> sameUpToOrder Y Z \<Longrightarrow> sameUpToOrder X Z"
  by (simp add: sameUpToOrder_def)

lemma sameUpToOrder_perm: "mset X' = mset X \<Longrightarrow> sameUpToOrder X' X"
  by (simp add: sameUpToOrder_def)

lemma sameUpToOrder_append:
  "sameUpToOrder X' X \<Longrightarrow> sameUpToOrder Y' Y \<Longrightarrow> sameUpToOrder (X' @ Y') (X @ Y)"
  by (simp add: sameUpToOrder_def)

lemma shapeOf_Field_eq:
  assumes "isField f" "shapeOf g = shapeOf f"
  shows "isField g \<and> Alias g = Alias f \<and> Name g = Name f \<and> FieldAttrs g = FieldAttrs f \<and>
         fieldKey g = fieldKey f \<and> sameUpToOrder (SelectionSet g) (SelectionSet f)"
  using assms by (cases f; cases g) (simp_all add: fieldKey_def sameUpToOrder_def)

lemma shapeOf_Field_intro:
  assumes "sameUpToOrder c' c"
  shows "shapeOf (Field a n r c') = shapeOf (Field a n r c)"
  using assms by (simp add: sameUpToOrder_def)

lemma shapeOf_setSelectionSet:
  assumes "isField e'" "isField e" "shapeOf e' = shapeOf e" "sameUpToOrder c' c"
  shows "shapeOf (setSelectionSet e' c') = shapeOf (setSelectionSet e c)"
  using assms shapeOf_Field_eq[OF assms(2,3)]
  by (simp add: setSelectionSet_def sameUpToOrder_def)

lemma flat_perm:
  assumes "mset X' = mset X" "flat X"
  shows "flat X'"
proof -
  have s: "set X' = set X" using assms(1) by (rule mset_eq_setD)
  have "mset (map fieldKey X') = mset (map fieldKey X)" using assms(1) by simp
  then have "distinct (map fieldKey X') = distinct (map fieldKey X)" by (rule mset_eq_imp_distinct_iff)
  then show ?thesis using assms(2) s by (simp add: flat_def list_all_iff)
qed

lemma keyedMap_keyed:
  assumes "flat Z"
  shows "keyedMap flat (keyed Z)"
proof -
  have "map fst (keyed Z) = map fieldKey Z" by (simp add: keyed_def comp_def)
  then have "distinct (map fst (keyed Z))" using assms by (simp add: flat_def)
  moreover have "\<forall>(k, v) \<in> set (keyed Z). isField v \<and> fieldKey v = k \<and> flat (SelectionSet v)"
    using flat_member[OF assms] by (auto simp: keyed_def)
  ultimately show ?thesis by (simp add: keyedMap_def)
qed

lemma values_keyed [simp]: "map snd (keyed Z) = Z"
  by (simp add: keyed_def comp_def)

lemma map_of_keyed_Some:
  assumes "distinct (map fieldKey Z)" "f \<in> set Z"
  shows "map_of (keyed Z) (fieldKey f) = Some f"
proof -
  have "distinct (map fst (keyed Z))" using assms(1) by (simp add: keyed_def comp_def)
  moreover have "(fieldKey f, f) \<in> set (keyed Z)" using assms(2) by (auto simp: keyed_def)
  ultimately show ?thesis by simp
qed

lemma map_of_keyed_SomeD: "map_of (keyed Z) k = Some f \<Longrightarrow> f \<in> set Z \<and> fieldKey f = k"
  by (auto simp: keyed_def dest!: map_of_SomeD)

lemma simMap_keyed:
  assumes X': "flat X'" and X: "flat X" and s: "sameUpToOrder X' X"
  shows "simMap (keyed X') (keyed X)"
proof -
  have half: "\<exists>g. map_of (keyed B) k = Some g \<and> shapeOf f = shapeOf g"
    if A: "flat A" and B: "flat B" and eq: "mset (map shapeOf A) = mset (map shapeOf B)"
      and f: "map_of (keyed A) k = Some f" for A B :: "'a Selection list" and k f
  proof -
    have fA: "f \<in> set A" and fk: "fieldKey f = k" using map_of_keyed_SomeD[OF f] by simp_all
    have "shapeOf f \<in> set (map shapeOf A)" using fA by simp
    then have "shapeOf f \<in> set (map shapeOf B)" using mset_eq_setD[OF eq] by simp
    then obtain g where g: "g \<in> set B" "shapeOf g = shapeOf f" by auto
    have "isField f" using flat_member[OF A fA] by simp
    then have "fieldKey g = k" using shapeOf_Field_eq[OF _ g(2)] fk by simp
    then have "map_of (keyed B) k = Some g"
      using map_of_keyed_Some[of B g] B g(1) by (simp add: flat_def)
    then show ?thesis using g(2) by simp
  qed
  have eq: "mset (map shapeOf X') = mset (map shapeOf X)" using s by (simp add: sameUpToOrder_def)
  show ?thesis
    unfolding simMap_def
  proof
    fix k
    show "rel_option (\<lambda>e' e. shapeOf e' = shapeOf e) (map_of (keyed X') k) (map_of (keyed X) k)"
    proof (cases "map_of (keyed X') k")
      case None
      have "map_of (keyed X) k = None"
      proof (rule ccontr)
        assume "map_of (keyed X) k \<noteq> None"
        then obtain f where "map_of (keyed X) k = Some f" by auto
        from half[OF X X' eq[symmetric] this] None show False by simp
      qed
      then show ?thesis using None by simp
    next
      case (Some f)
      from half[OF X' X eq Some] show ?thesis using Some by auto
    qed
  qed
qed

lemma values_by_keys:
  assumes "distinct (map fst m)"
  shows "map snd m = map (\<lambda>k. the (map_of m k)) (map fst m)"
  using assms
proof (induction m)
  case Nil
  then show ?case by simp
next
  case (Cons p m)
  obtain k v where p: "p = (k, v)" by (cases p)
  have "map (\<lambda>k'. the (map_of ((k, v) # m) k')) (map fst m) = map (\<lambda>k'. the (map_of m k')) (map fst m)"
    using Cons.prems p by (intro map_cong) auto
  then show ?case using Cons p by simp
qed

lemma simMap_dom: "simMap m' m \<Longrightarrow> fst ` set m' = fst ` set m"
proof -
  assume s: "simMap m' m"
  have "map_of m' k = None \<longleftrightarrow> map_of m k = None" for k
    using s[unfolded simMap_def, rule_format, of k] by (cases "map_of m' k"; cases "map_of m k") simp_all
  then have "dom (map_of m') = dom (map_of m)" by (auto simp: dom_def)
  then show ?thesis by (simp add: dom_map_of_conv_image_fst)
qed

lemma simMap_values:
  assumes d': "distinct (map fst m')" and d: "distinct (map fst m)" and s: "simMap m' m"
  shows "sameUpToOrder (map snd m') (map snd m)"
proof -
  have "set (map fst m') = set (map fst m)" using simMap_dom[OF s] by simp
  then have k: "mset (map fst m') = mset (map fst m)"
    using set_eq_iff_mset_eq_distinct[OF d' d] by blast
  have L': "map shapeOf (map snd m') = map (\<lambda>k. shapeOf (the (map_of m' k))) (map fst m')"
    by (subst values_by_keys[OF d']) (simp add: comp_def)
  have L: "map shapeOf (map snd m) = map (\<lambda>k. shapeOf (the (map_of m k))) (map fst m)"
    by (subst values_by_keys[OF d]) (simp add: comp_def)
  have "mset (map shapeOf (map snd m')) = image_mset (\<lambda>k. shapeOf (the (map_of m' k))) (mset (map fst m'))"
    unfolding L' by (simp only: mset_map)
  also have "\<dots> = image_mset (\<lambda>k. shapeOf (the (map_of m' k))) (mset (map fst m))"
    by (simp only: k)
  also have "\<dots> = image_mset (\<lambda>k. shapeOf (the (map_of m k))) (mset (map fst m))"
  proof (rule image_mset_cong)
    fix k assume "k \<in># mset (map fst m)"
    then have "k \<in> fst ` set m" by simp
    then obtain e where e: "map_of m k = Some e" by (metis weak_map_of_SomeI imageE prod.collapse d)
    then obtain e' where "map_of m' k = Some e'" "shapeOf e' = shapeOf e"
      using s[unfolded simMap_def, rule_format, of k] by (cases "map_of m' k") simp_all
    then show "shapeOf (the (map_of m' k)) = shapeOf (the (map_of m k))" using e by simp
  qed
  also have "\<dots> = mset (map shapeOf (map snd m))"
    unfolding L by (simp only: mset_map)
  finally show ?thesis by (simp add: sameUpToOrder_def)
qed

lemma foldFragmentSelection_mergeItem:
  "isField x \<Longrightarrow> foldFragmentSelection rec m x = mergeItem rec Some m x"
  by (cases "map_of m (fieldKey x)") (simp_all add: foldFragmentSelection_simps mergeItem_def)

lemma selectionStep_mergeItem:
  "isField x \<Longrightarrow> selectionStep rec doc m x = mergeItem rec (copyField rec) m x"
  by (cases "map_of m (fieldKey x)")
     (simp_all add: selectionStep_Field caseField_simps mergeItem_def copyField_def option.map_comp comp_def)

lemma map_of_keyed_Cons:
  "map_of (keyed (z # Z)) k = (if k = fieldKey z then Some z else map_of (keyed Z) k)"
  by (simp add: keyed_def)

lemma map_of_keyed_None: "k \<notin> fieldKey ` set Z \<Longrightarrow> map_of (keyed Z) k = None"
  by (simp add: keyed_def map_of_eq_None_iff image_image)

lemma mergeItem_map_of:
  assumes "mergeItem rec new m z = Some m1"
  shows "\<exists>v. mergeEntry rec new (map_of m (fieldKey z)) (Some z) = Some (Some v) \<and>
             map_of m1 = (map_of m)(fieldKey z \<mapsto> v)"
  using assms
  by (cases "map_of m (fieldKey z)")
     (auto simp: mergeItem_def mergeEntry_def map_of_mapAssign)

lemma mergeItem_None:
  assumes "mergeItem rec new m z = None"
  shows "mergeEntry rec new (map_of m (fieldKey z)) (Some z) = None"
  using assms
  by (cases "map_of m (fieldKey z)") (auto simp: mergeItem_def mergeEntry_def)

lemma mergeEntry_absent [simp]: "mergeEntry rec new eo None = Some eo"
  by (simp add: mergeEntry_def)

lemma mergeFold_pointwise:
  assumes "distinct (map fieldKey Z)"
  shows "case foldM (mergeItem rec new) m Z of
           Some m' \<Rightarrow> (\<forall>k. mergeEntry rec new (map_of m k) (map_of (keyed Z) k) = Some (map_of m' k))
         | None \<Rightarrow> (\<exists>k. mergeEntry rec new (map_of m k) (map_of (keyed Z) k) = None)"
  using assms
proof (induction Z arbitrary: m)
  case Nil
  then show ?case by (simp add: keyed_def)
next
  case (Cons z Z)
  let ?kz = "fieldKey z"
  have nz: "?kz \<notin> fieldKey ` set Z" and dZ: "distinct (map fieldKey Z)" using Cons.prems by auto
  have lz: "map_of (keyed Z) ?kz = None" using nz by (rule map_of_keyed_None)
  show ?case
  proof (cases "mergeItem rec new m z")
    case None
    have "mergeEntry rec new (map_of m ?kz) (map_of (keyed (z # Z)) ?kz) = None"
      using mergeItem_None[OF None] by (simp add: map_of_keyed_Cons)
    then show ?thesis using None by auto
  next
    case (Some m1)
    from mergeItem_map_of[OF Some] obtain v
      where v: "mergeEntry rec new (map_of m ?kz) (Some z) = Some (Some v)"
        and m1: "map_of m1 = (map_of m)(?kz \<mapsto> v)" by blast
    have same: "mergeEntry rec new (map_of m1 k) (map_of (keyed Z) k)
                = mergeEntry rec new (map_of m k) (map_of (keyed (z # Z)) k)" if "k \<noteq> ?kz" for k
      using that m1 by (simp add: map_of_keyed_Cons)
    show ?thesis
    proof (cases "foldM (mergeItem rec new) m1 Z")
      case None
      then obtain k where k: "mergeEntry rec new (map_of m1 k) (map_of (keyed Z) k) = None"
        using Cons.IH[OF dZ, of m1] by auto
      have "k \<noteq> ?kz" using k lz by auto
      then have "mergeEntry rec new (map_of m k) (map_of (keyed (z # Z)) k) = None"
        using same k by simp
      then show ?thesis using Some None by auto
    next
      case m': (Some m')
      then have ih: "\<forall>k. mergeEntry rec new (map_of m1 k) (map_of (keyed Z) k) = Some (map_of m' k)"
        using Cons.IH[OF dZ, of m1] by simp
      have "mergeEntry rec new (map_of m k) (map_of (keyed (z # Z)) k) = Some (map_of m' k)" for k
      proof (cases "k = ?kz")
        case True
        have "Some (map_of m' ?kz) = Some (Some v)" using ih[rule_format, of ?kz] lz m1 by simp
        then show ?thesis using True v by (simp add: map_of_keyed_Cons)
      next
        case False
        then show ?thesis using same ih by simp
      qed
      then show ?thesis using Some m' by simp
    qed
  qed
qed

lemma mergeFold_simulation:
  assumes dZ': "distinct (map fieldKey Z')" and dZ: "distinct (map fieldKey Z)"
    and entry: "\<And>k. rel_option (rel_option (\<lambda>e' e. shapeOf e' = shapeOf e))
                  (mergeEntry rec' new' (map_of m' k) (map_of (keyed Z') k))
                  (mergeEntry rec new (map_of m k) (map_of (keyed Z) k))"
  shows "rel_option simMap (foldM (mergeItem rec' new') m' Z') (foldM (mergeItem rec new) m Z)"
proof -
  note pw' = mergeFold_pointwise[OF dZ', of rec' new' m']
  note pw = mergeFold_pointwise[OF dZ, of rec new m]
  show ?thesis
  proof (cases "foldM (mergeItem rec' new') m' Z'")
    case None
    then obtain k where "mergeEntry rec' new' (map_of m' k) (map_of (keyed Z') k) = None"
      using pw' by auto
    then have k: "mergeEntry rec new (map_of m k) (map_of (keyed Z) k) = None"
      using entry[of k] by (cases "mergeEntry rec new (map_of m k) (map_of (keyed Z) k)") simp_all
    have "foldM (mergeItem rec new) m Z = None"
    proof (cases "foldM (mergeItem rec new) m Z")
      case (Some mm)
      then show ?thesis using pw k by simp
    qed simp
    then show ?thesis using None by simp
  next
    case s': (Some f')
    then have a': "\<forall>k. mergeEntry rec' new' (map_of m' k) (map_of (keyed Z') k) = Some (map_of f' k)"
      using pw' by simp
    show ?thesis
    proof (cases "foldM (mergeItem rec new) m Z")
      case None
      then obtain k where "mergeEntry rec new (map_of m k) (map_of (keyed Z) k) = None"
        using pw by auto
      then show ?thesis using entry[of k] a' by simp
    next
      case (Some f)
      then have a: "\<forall>k. mergeEntry rec new (map_of m k) (map_of (keyed Z) k) = Some (map_of f k)"
        using pw by simp
      have "simMap f' f"
        unfolding simMap_def using entry a' a by (metis option.rel_inject(2))
      then show ?thesis using s' Some by simp
    qed
  qed
qed

lemma relInputs_refl [simp]: "relInputs W W"
  by (induction W) (auto intro: relInputs.intros)

lemma relInputs_flat:
  "flat Y' \<Longrightarrow> flat Y \<Longrightarrow> sameUpToOrder Y' Y \<Longrightarrow> relInputs Y' Y"
  using relFlat[of Y' Y "[]" "[]"] by (simp add: relNil)

lemma entryRel_lookup:
  assumes "keyedMap flat m'" "keyedMap flat m" "simMap m' m"
  shows "rel_option entryRel (map_of m' k) (map_of m k)"
proof (cases "map_of m' k")
  case None
  then show ?thesis using assms(3)[unfolded simMap_def, rule_format, of k]
    by (cases "map_of m k") simp_all
next
  case (Some e')
  then obtain e where e: "map_of m k = Some e" "shapeOf e' = shapeOf e"
    using assms(3)[unfolded simMap_def, rule_format, of k] by (cases "map_of m k") simp_all
  have "isField e" "flat (SelectionSet e)" using keyedMap_lookup[OF assms(2) e(1)] by simp_all
  moreover have "flat (SelectionSet e')" using keyedMap_lookup[OF assms(1) Some] by simp
  ultimately show ?thesis using Some e by (simp add: entryRel_def)
qed

lemma itemRel_lookup_flat:
  assumes X': "flat X'" and X: "flat X" and s: "sameUpToOrder X' X"
  shows "rel_option itemRel (map_of (keyed X') k) (map_of (keyed X) k)"
proof -
  have r: "rel_option entryRel (map_of (keyed X') k) (map_of (keyed X) k)"
    by (rule entryRel_lookup[OF keyedMap_keyed[OF X'] keyedMap_keyed[OF X] simMap_keyed[OF X' X s]])
  have "itemRel e' e" if "entryRel e' e" for e' e :: "'a Selection"
  proof -
    have "sameUpToOrder (SelectionSet e') (SelectionSet e)"
      using that shapeOf_Field_eq[of e e'] by (simp add: entryRel_def)
    moreover have "flat (SelectionSet e')" "flat (SelectionSet e)" "isField e" "shapeOf e' = shapeOf e"
      using that by (simp_all add: entryRel_def)
    ultimately show ?thesis using relInputs_flat[of "SelectionSet e'" "SelectionSet e"]
      by (simp add: itemRel_def)
  qed
  then show ?thesis using r by (auto elim!: option.rel_cases)
qed

lemma itemRel_lookup_same:
  assumes "isField v"
  shows "rel_option itemRel (map_of (keyed [v]) k) (map_of (keyed [v]) k)"
  using assms by (simp add: keyed_def itemRel_def)

lemma mergeEntry_sim:
  assumes rs: "recSim rec' rec"
    and eo: "rel_option entryRel eo' eo"
    and zo: "rel_option itemRel zo' zo"
    and new: "\<And>z' z. itemRel z' z \<Longrightarrow> rel_option (\<lambda>e' e. shapeOf e' = shapeOf e) (new' z') (new z)"
  shows "rel_option (rel_option (\<lambda>e' e. shapeOf e' = shapeOf e))
           (mergeEntry rec' new' eo' zo') (mergeEntry rec new eo zo)"
proof (cases zo)
  case None
  then have "zo' = None" using zo by (cases zo') simp_all
  then show ?thesis using None eo
    by (auto simp: mergeEntry_def entryRel_def elim!: option.rel_cases)
next
  case (Some z)
  then obtain z' where z': "zo' = Some z'" and zz: "itemRel z' z" using zo by (cases zo') simp_all
  show ?thesis
  proof (cases eo)
    case None
    then have "eo' = None" using eo by (cases eo') simp_all
    then show ?thesis using None Some z' new[OF zz]
      by (auto simp: mergeEntry_def elim!: option.rel_cases)
  next
    case e: (Some e)
    then obtain e' where e': "eo' = Some e'" and ee: "entryRel e' e" using eo by (cases eo') simp_all
    have fe: "isField e" and sh: "shapeOf e' = shapeOf e"
      and fl: "flat (SelectionSet e')" "flat (SelectionSet e)" using ee by (simp_all add: entryRel_def)
    have fe': "isField e'" using shapeOf_Field_eq[OF fe sh] by simp
    have ch: "sameUpToOrder (SelectionSet e') (SelectionSet e)" using shapeOf_Field_eq[OF fe sh] by simp
    have "relInputs (SelectionSet e' @ SelectionSet z') (SelectionSet e @ SelectionSet z)"
      using relFlat[OF fl ch] zz by (simp add: itemRel_def)
    then have r: "rel_option sameUpToOrder (rec' (SelectionSet e' @ SelectionSet z'))
                    (rec (SelectionSet e @ SelectionSet z))"
      using rs by (simp add: recSim_def)
    show ?thesis
      using r shapeOf_setSelectionSet[OF fe' fe sh] Some z' e e'
      by (auto simp: mergeEntry_def elim!: option.rel_cases)
  qed
qed

lemma copyField_sim:
  assumes rs: "recSim rec' rec" and zz: "itemRel z' z"
  shows "rel_option (\<lambda>e' e. shapeOf e' = shapeOf e) (copyField rec' z') (copyField rec z)"
proof -
  have f: "isField z" and sh: "shapeOf z' = shapeOf z"
    and ri: "relInputs (SelectionSet z') (SelectionSet z)" using zz by (simp_all add: itemRel_def)
  have a: "Alias z' = Alias z" "Name z' = Name z" "FieldAttrs z' = FieldAttrs z"
    using shapeOf_Field_eq[OF f sh] by simp_all
  have "rel_option sameUpToOrder (rec' (SelectionSet z')) (rec (SelectionSet z))"
    using rs ri by (simp add: recSim_def)
  then show ?thesis
    using a shapeOf_Field_intro by (auto simp: copyField_def elim!: option.rel_cases)
qed

lemma mergeFold_sim:
  assumes rs: "recSim rec' rec"
    and km': "keyedMap flat m'" and km: "keyedMap flat m" and sm: "simMap m' m"
    and dZ': "distinct (map fieldKey Z')" and dZ: "distinct (map fieldKey Z)"
    and items: "\<And>k. rel_option itemRel (map_of (keyed Z') k) (map_of (keyed Z) k)"
    and new: "\<And>z' z. itemRel z' z \<Longrightarrow> rel_option (\<lambda>e' e. shapeOf e' = shapeOf e) (new' z') (new z)"
  shows "rel_option simMap (foldM (mergeItem rec' new') m' Z') (foldM (mergeItem rec new) m Z)"
proof (rule mergeFold_simulation[OF dZ' dZ])
  fix k
  show "rel_option (rel_option (\<lambda>e' e. shapeOf e' = shapeOf e))
          (mergeEntry rec' new' (map_of m' k) (map_of (keyed Z') k))
          (mergeEntry rec new (map_of m k) (map_of (keyed Z) k))"
    by (rule mergeEntry_sim[OF rs entryRel_lookup[OF km' km sm] items new])
qed

lemma fieldLoop_mergeFold:
  "list_all isField Z \<Longrightarrow>
   foldM (selectionStep rec doc) m Z = foldM (mergeItem rec (copyField rec)) m Z"
  by (induction Z arbitrary: m) (simp_all add: selectionStep_mergeItem split: option.splits)

lemma fragmentLoop_mergeFold:
  "list_all isField B \<Longrightarrow>
   foldM (foldFragmentSelection rec) m B = foldM (mergeItem rec Some) m B"
  by (induction B arbitrary: m) (simp_all add: foldFragmentSelection_mergeItem split: option.splits)

lemma flat_fields: "flat Z \<Longrightarrow> list_all isField Z"
  using flat_member by (auto simp: list_all_iff)

lemma flat_distinct: "flat Z \<Longrightarrow> distinct (map fieldKey Z)"
  by (simp add: flat_def)

lemma fieldLoop_sim:
  assumes rs: "recSim rec' rec"
    and km': "keyedMap flat m'" and km: "keyedMap flat m" and sm: "simMap m' m"
    and Y': "flat Y'" and Y: "flat Y" and s: "sameUpToOrder Y' Y"
  shows "rel_option simMap (foldM (selectionStep rec' doc') m' Y') (foldM (selectionStep rec doc) m Y)"
proof -
  have "rel_option simMap (foldM (mergeItem rec' (copyField rec')) m' Y')
          (foldM (mergeItem rec (copyField rec)) m Y)"
  proof (rule mergeFold_sim[OF rs km' km sm flat_distinct[OF Y'] flat_distinct[OF Y]])
    fix k show "rel_option itemRel (map_of (keyed Y') k) (map_of (keyed Y) k)"
      by (rule itemRel_lookup_flat[OF Y' Y s])
  next
    fix z' z :: "'a Selection" assume "itemRel z' z"
    then show "rel_option (\<lambda>e' e. shapeOf e' = shapeOf e) (copyField rec' z') (copyField rec z)"
      by (rule copyField_sim[OF rs])
  qed
  then show ?thesis
    using fieldLoop_mergeFold[OF flat_fields[OF Y'], of rec' doc' m']
      fieldLoop_mergeFold[OF flat_fields[OF Y], of rec doc m] by simp
qed

lemma fragmentLoop_sim:
  assumes rs: "recSim rec' rec"
    and km': "keyedMap flat m'" and km: "keyedMap flat m" and sm: "simMap m' m"
    and B': "flat B'" and B: "flat B" and s: "sameUpToOrder B' B"
  shows "rel_option simMap (foldM (foldFragmentSelection rec') m' B') (foldM (foldFragmentSelection rec) m B)"
proof -
  have "rel_option simMap (foldM (mergeItem rec' Some) m' B') (foldM (mergeItem rec Some) m B)"
  proof (rule mergeFold_sim[OF rs km' km sm flat_distinct[OF B'] flat_distinct[OF B]])
    fix k show "rel_option itemRel (map_of (keyed B') k) (map_of (keyed B) k)"
      by (rule itemRel_lookup_flat[OF B' B s])
  next
    fix z' z :: "'a Selection" assume "itemRel z' z"
    then show "rel_option (\<lambda>e' e. shapeOf e' = shapeOf e) (Some z') (Some z)"
      by (simp add: itemRel_def)
  qed
  then show ?thesis
    using fragmentLoop_mergeFold[OF flat_fields[OF B'], of rec' m']
      fragmentLoop_mergeFold[OF flat_fields[OF B], of rec m] by simp
qed

lemma fragmentBody_sim:
  assumes rs: "recSim rec' rec"
    and fl': "\<And>ss R. rec' ss = Some R \<Longrightarrow> flat R" and fl: "\<And>ss R. rec ss = Some R \<Longrightarrow> flat R"
    and km': "keyedMap flat m'" and km: "keyedMap flat m" and sm: "simMap m' m"
  shows "rel_option simMap
           (case rec' body of None \<Rightarrow> None | Some B \<Rightarrow> foldM (foldFragmentSelection rec') m' B)
           (case rec body of None \<Rightarrow> None | Some B \<Rightarrow> foldM (foldFragmentSelection rec) m B)"
proof -
  have r: "rel_option sameUpToOrder (rec' body) (rec body)" using rs by (simp add: recSim_def)
  show ?thesis
  proof (cases "rec body")
    case None
    then have "rec' body = None" using r by (cases "rec' body") simp_all
    then show ?thesis using None by simp
  next
    case (Some B)
    then obtain B' where B': "rec' body = Some B'" and s: "sameUpToOrder B' B"
      using r by (cases "rec' body") simp_all
    show ?thesis
      using fragmentLoop_sim[OF rs km' km sm fl'[OF B'] fl[OF Some] s] B' Some by simp
  qed
qed

lemma selectionStep_sim:
  assumes rs: "recSim rec' rec"
    and fl': "\<And>ss R. rec' ss = Some R \<Longrightarrow> flat R" and fl: "\<And>ss R. rec ss = Some R \<Longrightarrow> flat R"
    and km': "keyedMap flat m'" and km: "keyedMap flat m" and sm: "simMap m' m"
  shows "rel_option simMap (selectionStep rec' doc m' v) (selectionStep rec doc m v)"
proof (cases v)
  case (Field a n r ss)
  then have f: "isField v" by simp
  have "rel_option simMap (foldM (mergeItem rec' (copyField rec')) m' [v])
          (foldM (mergeItem rec (copyField rec)) m [v])"
  proof (rule mergeFold_sim[OF rs km' km sm])
    fix k show "rel_option itemRel (map_of (keyed [v]) k) (map_of (keyed [v]) k)"
      by (rule itemRel_lookup_same[OF f])
  next
    fix z' z :: "'a Selection" assume "itemRel z' z"
    then show "rel_option (\<lambda>e' e. shapeOf e' = shapeOf e) (copyField rec' z') (copyField rec z)"
      by (rule copyField_sim[OF rs])
  qed simp_all
  then show ?thesis using f by (simp add: selectionStep_mergeItem split: option.splits)
next
  case (InlineFragment t r ss)
  show ?thesis
    using fragmentBody_sim[OF rs fl' fl km' km sm, where body = ss] InlineFragment
    by (simp add: selectionStep_def)
next
  case (FragmentSpread n r)
  show ?thesis
  proof (cases "findFragmentDefinition doc n")
    case None
    then show ?thesis using FragmentSpread sm by (simp add: selectionStep_def)
  next
    case (Some fd)
    show ?thesis
      using fragmentBody_sim[OF rs fl' fl km' km sm, where body = "FragSelectionSet fd"] FragmentSpread Some
      by (simp add: selectionStep_def)
  qed
qed

lemma selectionLoop_sim:
  assumes rs: "recSim rec' rec"
    and fl': "\<And>ss R. rec' ss = Some R \<Longrightarrow> flat R" and fl: "\<And>ss R. rec ss = Some R \<Longrightarrow> flat R"
    and ri: "relInputs W' W"
    and km': "keyedMap flat m'" and km: "keyedMap flat m" and sm: "simMap m' m"
  shows "rel_option simMap (foldM (selectionStep rec' doc) m' W') (foldM (selectionStep rec doc) m W)"
  using ri km' km sm
proof (induction W' W arbitrary: m' m rule: relInputs.induct)
  case relNil
  then show ?case by simp
next
  case (relSame W' W v)
  have st: "rel_option simMap (selectionStep rec' doc m' v) (selectionStep rec doc m v)"
    by (rule selectionStep_sim[OF rs fl' fl relSame.prems])
  show ?case
  proof (cases "selectionStep rec doc m v")
    case None
    then have "selectionStep rec' doc m' v = None" using st by (cases "selectionStep rec' doc m' v") simp_all
    then show ?thesis using None by simp
  next
    case (Some m1)
    then obtain m1' where m1': "selectionStep rec' doc m' v = Some m1'" and s1: "simMap m1' m1"
      using st by (cases "selectionStep rec' doc m' v") simp_all
    have k1': "keyedMap flat m1'"
      using selectionStep_keyed[of rec' flat m' doc v m1'] fl' flat_member relSame.prems(1) m1' by blast
    have k1: "keyedMap flat m1"
      using selectionStep_keyed[of rec flat m doc v m1] fl flat_member relSame.prems(2) Some by blast
    show ?thesis using relSame.IH[OF k1' k1 s1] m1' Some by simp
  qed
next
  case (relFlat Y' Y W' W)
  have st: "rel_option simMap (foldM (selectionStep rec' doc) m' Y') (foldM (selectionStep rec doc) m Y)"
    by (rule fieldLoop_sim[OF rs relFlat.prems relFlat.hyps(1,2,3)])
  show ?case
  proof (cases "foldM (selectionStep rec doc) m Y")
    case None
    then have "foldM (selectionStep rec' doc) m' Y' = None"
      using st by (cases "foldM (selectionStep rec' doc) m' Y'") simp_all
    then show ?thesis using None by (simp add: foldM_append)
  next
    case (Some m1)
    then obtain m1' where m1': "foldM (selectionStep rec' doc) m' Y' = Some m1'" and s1: "simMap m1' m1"
      using st by (cases "foldM (selectionStep rec' doc) m' Y'") simp_all
    have k1': "keyedMap flat m1'"
      using selectionLoop_keyed[of rec' flat m' doc Y' m1'] fl' flat_member relFlat.prems(1) m1' by blast
    have k1: "keyedMap flat m1"
      using selectionLoop_keyed[of rec flat m doc Y m1] fl flat_member relFlat.prems(2) Some by blast
    show ?thesis using relFlat.IH[OF k1' k1 s1] m1' Some by (simp add: foldM_append)
  qed
qed

lemma flattenOrd_flat:
  assumes ord: "rangeOrder ord"
  shows "flattenSelectionSetOrd ord n S doc = Some R \<Longrightarrow> flat R"
proof (induction n arbitrary: S R)
  case 0
  then show ?case by simp
next
  case (Suc n)
  let ?rec = "\<lambda>ss. flattenSelectionSetOrd ord n ss doc"
  from Suc.prems obtain m where m: "foldM (selectionStep ?rec doc) [] S = Some m"
    and R: "R = ord S (map snd m)" by auto
  have "keyedMap flat m"
  proof (rule selectionLoop_keyed[OF _ _ keyedMap_empty m])
    fix ss R' assume "?rec ss = Some R'"
    then show "flat R'" by (rule Suc.IH)
  next
    fix ss R' f assume "?rec ss = Some R'" "f \<in> set R'" "isField f"
    then show "flat (SelectionSet f)" using Suc.IH flat_member by blast
  qed
  then have "flat (map snd m)" by (rule flat_keyedMap)
  moreover have "mset R = mset (map snd m)" using ord R by (simp add: rangeOrder_def)
  ultimately show ?case using flat_perm by blast
qed

lemma flattenOrd_recSim:
  assumes ord': "rangeOrder ord'" and ord: "rangeOrder ord"
  shows "recSim (\<lambda>ss. flattenSelectionSetOrd ord' n ss doc) (\<lambda>ss. flattenSelectionSetOrd ord n ss doc)"
proof (induction n)
  case 0
  then show ?case by (simp add: recSim_def)
next
  case (Suc n)
  let ?rec' = "\<lambda>ss. flattenSelectionSetOrd ord' n ss doc"
  let ?rec = "\<lambda>ss. flattenSelectionSetOrd ord n ss doc"
  show ?case
    unfolding recSim_def
  proof (intro allI impI)
    fix A' A :: "'a Selection list"
    assume ri: "relInputs A' A"
    have sim: "rel_option simMap (foldM (selectionStep ?rec' doc) [] A') (foldM (selectionStep ?rec doc) [] A)"
    proof (rule selectionLoop_sim[OF Suc _ _ ri])
      fix ss R assume "?rec' ss = Some R"
      then show "flat R" by (rule flattenOrd_flat[OF ord'])
    next
      fix ss R assume "?rec ss = Some R"
      then show "flat R" by (rule flattenOrd_flat[OF ord])
    qed (simp_all add: simMap_def)
    show "rel_option sameUpToOrder (flattenSelectionSetOrd ord' (Suc n) A' doc)
            (flattenSelectionSetOrd ord (Suc n) A doc)"
    proof (cases "foldM (selectionStep ?rec doc) [] A")
      case None
      then have "foldM (selectionStep ?rec' doc) [] A' = None"
        using sim by (cases "foldM (selectionStep ?rec' doc) [] A'") simp_all
      then show ?thesis using None by simp
    next
      case (Some m)
      then obtain m' where m': "foldM (selectionStep ?rec' doc) [] A' = Some m'" and s: "simMap m' m"
        using sim by (cases "foldM (selectionStep ?rec' doc) [] A'") simp_all
      have k': "keyedMap flat m'"
        using selectionLoop_keyed[of ?rec' flat "[]" doc A' m'] flattenOrd_flat[OF ord'] flat_member m'
        by (metis keyedMap_empty)
      have k: "keyedMap flat m"
        using selectionLoop_keyed[of ?rec flat "[]" doc A m] flattenOrd_flat[OF ord] flat_member Some
        by (metis keyedMap_empty)
      have v: "sameUpToOrder (map snd m') (map snd m)"
        using simMap_values[OF _ _ s] k' k by (simp add: keyedMap_def)
      have "sameUpToOrder (ord' A' (map snd m')) (map snd m')"
        using ord' by (intro sameUpToOrder_perm) (simp add: rangeOrder_def)
      moreover have "sameUpToOrder (map snd m) (ord A (map snd m))"
        using ord by (intro sameUpToOrder_perm) (simp add: rangeOrder_def)
      ultimately have "sameUpToOrder (ord' A' (map snd m')) (ord A (map snd m))"
        using v sameUpToOrder_trans by blast
      then show ?thesis using m' Some by simp
    qed
  qed
qed

lemma rangeOrder_id: "rangeOrder (\<lambda>S xs. xs)"
  by (simp add: rangeOrder_def)

theorem iteration_order_irrelevant:
  assumes "rangeOrder ord"
  shows "rel_option sameUpToOrder (flattenSelectionSetOrd ord n S doc) (flattenSelectionSet n S doc)"
  using flattenOrd_recSim[OF assms rangeOrder_id, of n doc, unfolded recSim_def, rule_format, of S S]
  by (simp add: flattenSelectionSetOrd_id)

section \<open>The claims\<close>

text \<open>
  C1, as stated: the deduplication key is the response key, so two sibling fields with the
  same response key are merged into one entry. The code keys the map by alias, colon and
  name: the two fields below have the response key \<^verbatim>\<open>a\<close> and stay two entries.
\<close>

theorem C1_response_key_counterexample:
  "responseKey aliasX = responseKey aliasY \<and>
   flattenSelectionSet 3 [aliasX, aliasY] refDocument = Some [aliasX, aliasY]"
  by code_simp

text \<open>
  C1, amended: the deduplication key of a field is its name when the alias is empty, and
  alias, colon and name otherwise (\<open>fieldKey\<close>); any two sibling fields with the same
  deduplication key are merged into a single entry of the result.
\<close>

theorem C1_dedup_key_single_entry:
  assumes "flattenSelectionSet n S doc = Some R"
    and "f \<in> set S" and "g \<in> set S" and "isField f" and "isField g"
    and "fieldKey f = fieldKey g"
  shows "\<exists>!r. r \<in> set R \<and> fieldKey r = fieldKey f \<and> fieldKey r = fieldKey g"
proof -
  have "fieldKey f \<in> fieldKey ` set R" using flatten_field_entry[OF assms(1,2,4)] .
  then obtain r where r: "r \<in> set R" "fieldKey r = fieldKey f" by auto
  have "r' = r" if "r' \<in> set R" "fieldKey r' = fieldKey f" for r'
    using flat_unique_key[OF flatten_flat[OF assms(1)] that(1) r(1)] that(2) r(2) by simp
  then show ?thesis using r assms(6) by metis
qed

theorem C1_dedup_key_single_entry_witness:
  "flattenSelectionSet 3 [userA, leaf ''id'', userB] refDocument = Some [userMerged, leaf ''id''] \<and>
   userA \<in> set [userA, leaf ''id'', userB] \<and> userB \<in> set [userA, leaf ''id'', userB] \<and>
   isField userA \<and> isField userB \<and> fieldKey userA = fieldKey userB \<and>
   (\<exists>!r. r \<in> set [userMerged, leaf ''id''] \<and> fieldKey r = fieldKey userA \<and> fieldKey r = fieldKey userB)"
proof -
  have h1: "flattenSelectionSet 3 [userA, leaf ''id'', userB] refDocument = Some [userMerged, leaf ''id'']"
    by code_simp
  have h2: "userA \<in> set [userA, leaf ''id'', userB]" by simp
  have h3: "userB \<in> set [userA, leaf ''id'', userB]" by simp
  have h4: "isField userA" by code_simp
  have h5: "isField userB" by code_simp
  have h6: "fieldKey userA = fieldKey userB" by code_simp
  show ?thesis using h1 h2 h3 h4 h5 h6 C1_dedup_key_single_entry[OF h1 h2 h3 h4 h5 h6] by blast
qed

text \<open>
  C2, as stated: every field of a flattened selection set has a response key distinct from
  its siblings. The two inline fragments below flatten to two fields with the response key
  \<^verbatim>\<open>n\<close>.
\<close>

theorem C2_distinct_response_keys_counterexample:
  "flattenSelectionSet 3 petSelectionSet refDocument = Some petFlattened \<and>
   \<not> distinct (map responseKey petFlattened)"
  by code_simp

text \<open>
  C2, amended: every selection set of the flattened output, at every nesting level,
  contains only fields, and every field in it has a deduplication key (\<open>fieldKey\<close>)
  distinct from all of its siblings at that level. This is \<open>flat\<close>.
\<close>

theorem C2_output_flat:
  "flattenSelectionSet n S doc = Some R \<Longrightarrow> flat R"
  by (rule flatten_flat)

theorem C2_output_flat_witness:
  "flattenSelectionSet 4 refSelectionSet refDocument = Some refFlattened \<and> flat refFlattened"
proof -
  have h: "flattenSelectionSet 4 refSelectionSet refDocument = Some refFlattened"
    by code_simp
  show ?thesis using h C2_output_flat[OF h] by simp
qed

text \<open>
  C3, as stated: a spread whose name resolves to no fragment definition makes the flatten
  operation fail. The operation below spreads \<^verbatim>\<open>Missing\<close>, which the document does not
  define; \<open>flatten\<close> returns an operation, with the spread dropped.
\<close>

theorem C3_unresolved_spread_counterexample:
  "findFragmentDefinition refDocument ''Missing'' = None \<and>
   flatten 2 refDocument
     (refOperation\<lparr>OpSelectionSet := [leaf ''id'', FragmentSpread ''Missing'' ()]\<rparr>)
     = Some (refOperation\<lparr>OpSelectionSet := [leaf ''id'']\<rparr>)"
  by code_simp

text \<open>
  C3, amended: a spread whose name resolves to no fragment definition contributes nothing;
  the flattening reports no error and returns what it returns for the selection set
  without that spread.
\<close>

theorem C3_unresolved_spread_dropped:
  "findFragmentDefinition doc name = None \<Longrightarrow>
   flattenSelectionSet n (xs @ FragmentSpread name a # ys) doc = flattenSelectionSet n (xs @ ys) doc"
  by (rule flatten_unresolved_spread)

theorem C3_unresolved_spread_dropped_witness:
  "findFragmentDefinition refDocument ''Missing'' = None \<and>
   flattenSelectionSet 2 ([leaf ''id''] @ FragmentSpread ''Missing'' () # [leaf ''name'']) refDocument
     = flattenSelectionSet 2 ([leaf ''id''] @ [leaf ''name'']) refDocument \<and>
   flattenSelectionSet 2 ([leaf ''id''] @ [leaf ''name'']) refDocument = Some [leaf ''id'', leaf ''name'']"
proof -
  have h: "findFragmentDefinition refDocument ''Missing'' = None" by code_simp
  have v: "flattenSelectionSet 2 ([leaf ''id''] @ [leaf ''name'']) refDocument = Some [leaf ''id'', leaf ''name'']"
    by code_simp
  show ?thesis
    using h v C3_unresolved_spread_dropped[OF h, of 2 "[leaf ''id'']" "()" "[leaf ''name'']"] by simp
qed

text \<open>
  C4. The reference fixture of \<^verbatim>\<open>TestAnalyseDocument\<close>: when the validator accepts the
  document, the analysis returns exactly one record, with the operation name
  \<^verbatim>\<open>GetOrder\<close>, the raw complexity 5 and the flattened complexity 3, under the cost rule
  of the complexity of the children plus one.
\<close>

theorem C4_reference_fixture:
  "validate refDocument \<Longrightarrow>
   AnalyseDocument 4 validate refDocument
     = Some (Inr [\<lparr>OperationName = ''GetOrder'', Complexity = 5, FlattenedComplexity = 3\<rparr>])"
proof -
  assume v: "validate refDocument"
  have "foldM (\<lambda>documentResults op.
                  case analyseOperation 4 refDocument op of
                    None \<Rightarrow> None
                  | Some res \<Rightarrow> Some (documentResults @ [res])) [] (Operations refDocument)
        = Some [\<lparr>OperationName = ''GetOrder'', Complexity = 5, FlattenedComplexity = 3\<rparr>]"
    by code_simp
  then show ?thesis using v by (simp add: AnalyseDocument_def)
qed

theorem C4_reference_fixture_witness:
  "(\<lambda>doc. Fragments doc \<noteq> []) refDocument \<and>
   AnalyseDocument 4 (\<lambda>doc. Fragments doc \<noteq> []) refDocument
     = Some (Inr [\<lparr>OperationName = ''GetOrder'', Complexity = 5, FlattenedComplexity = 3\<rparr>])"
proof -
  have h: "(\<lambda>doc. Fragments doc \<noteq> []) refDocument" by code_simp
  show ?thesis using h C4_reference_fixture[of "\<lambda>doc. Fragments doc \<noteq> []", OF h] by simp
qed

text \<open>
  C5, as stated: when merging encounters a field whose response key already has an entry,
  the children of the entry become the merge of both contributors' nested selections. The
  second field below has the response key \<^verbatim>\<open>a\<close> of the first; the children of the two
  are not merged, and no entry has the merge of their concatenation as its children.
\<close>

theorem C5_response_key_counterexample:
  "responseKey aliasX = responseKey aliasY \<and>
   flattenSelectionSet 3 [aliasX, aliasY] refDocument = Some [aliasX, aliasY] \<and>
   flattenSelectionSet 2 (SelectionSet aliasX @ SelectionSet aliasY) refDocument
     = Some [leaf ''p'', leaf ''q''] \<and>
   SelectionSet aliasX \<noteq> [leaf ''p'', leaf ''q''] \<and>
   SelectionSet aliasY \<noteq> [leaf ''p'', leaf ''q'']"
  by code_simp

text \<open>
  C5, amended: when merging encounters a field whose deduplication key (\<open>fieldKey\<close>)
  already has an entry, the children of the resulting entry equal the recursive merge of
  the concatenation of the contributors' nested selections. The contributors of a
  selection set are its \<open>siblingFields\<close>: the fields written in it, with their original,
  unmerged nested selections, and the fields folded in from its fragments. For two sibling
  fields \<open>g\<close> and \<open>f\<close> with one key, \<open>childrenOfKey\<close> is the nested selections of
  \<open>g\<close> followed by those of \<open>f\<close>.
\<close>

theorem C5_merged_children:
  "flattenSelectionSet (Suc n) S doc = Some R \<Longrightarrow>
   \<exists>E. siblingFields n doc S = Some E \<and>
       (\<forall>f \<in> set E. \<exists>e \<in> set R. fieldKey e = fieldKey f \<and>
          flattenSelectionSet n (childrenOfKey (fieldKey f) E) doc = Some (SelectionSet e))"
  by (rule flatten_contributors_children)

theorem C5_merged_children_witness:
  "flattenSelectionSet (Suc 2) [userA, userB] refDocument = Some [userMerged] \<and>
   siblingFields 2 refDocument [userA, userB] = Some [userA, userB] \<and>
   childrenOfKey (fieldKey userA) [userA, userB] = SelectionSet userA @ SelectionSet userB \<and>
   (\<exists>E. siblingFields 2 refDocument [userA, userB] = Some E \<and>
       (\<forall>f \<in> set E. \<exists>e \<in> set [userMerged]. fieldKey e = fieldKey f \<and>
          flattenSelectionSet 2 (childrenOfKey (fieldKey f) E) refDocument = Some (SelectionSet e)))"
proof -
  have h: "flattenSelectionSet (Suc 2) [userA, userB] refDocument = Some [userMerged]"
    by code_simp
  have s: "siblingFields 2 refDocument [userA, userB] = Some [userA, userB]"
    by code_simp
  have c: "childrenOfKey (fieldKey userA) [userA, userB] = SelectionSet userA @ SelectionSet userB"
    by code_simp
  show ?thesis using h s c C5_merged_children[OF h] by blast
qed





text \<open>
  C8. Flattening never mutates its inputs. In the model on the heap, whatever order the
  map is read in and whatever the call of \<open>flattenH\<close> does (return the new operation, or
  not return), every object that existed before the call is in the heap after it, at its
  address and with its value: the input operation, the document, the fragment definitions
  and every selection reachable from them. The assignment to \<^verbatim>\<open>existing.SelectionSet\<close>
  only ever hits an object that the call has allocated.
\<close>

theorem C8_flatten_never_mutates:
  "iterationOrder ord \<Longrightarrow> unchanged h (snd (flattenH ord n h doc op))"
  by (rule flattenH_unchanged)

theorem C8_flatten_never_mutates_witness:
  "iterationOrder (\<lambda>(h :: unit heap) xs. rev xs) \<and>
   unchanged refHeap (snd (flattenH (\<lambda>h xs. rev xs) 4 refHeap 10 9)) \<and>
   flattenH (\<lambda>h xs. rev xs) 4 refHeap 10 9 =
    (Some 16, refHeap @
      [FieldObj ''id'' ''id'' () [], FieldObj ''name'' ''name'' () [],
       FieldObj ''id'' ''id'' () [], FieldObj ''name'' ''name'' () [],
       FieldObj ''user'' ''user'' () [11, 12],
       OperationDefinitionObj ''query'' ''GetOrder'' [()] [] [15] () ()])"
proof -
  have h: "iterationOrder (\<lambda>(h :: unit heap) xs. rev xs)" by (simp add: iterationOrder_def)
  have v: "flattenH (\<lambda>h xs. rev xs) 4 refHeap 10 9 =
    (Some 16, refHeap @
      [FieldObj ''id'' ''id'' () [], FieldObj ''name'' ''name'' () [],
       FieldObj ''id'' ''id'' () [], FieldObj ''name'' ''name'' () [],
       FieldObj ''user'' ''user'' () [11, 12],
       OperationDefinitionObj ''query'' ''GetOrder'' [()] [] [15] () ()])"
    by code_simp
  show ?thesis using h v C8_flatten_never_mutates[OF h, of refHeap 4 10 9] by simp
qed

text \<open>
  C9. The merge result is independent of the type conditions of inline fragments: two
  inputs (selection set and fragment definitions) that differ only in those type conditions
  flatten to the same result.
\<close>

theorem C9_type_conditions_ignored:
  "map eraseTypeConditions S = map eraseTypeConditions S' \<Longrightarrow>
   map eraseFragment (Fragments doc) = map eraseFragment (Fragments doc') \<Longrightarrow>
   flattenSelectionSet n S doc = flattenSelectionSet n S' doc'"
  by (rule flatten_type_conditions)

theorem C9_type_conditions_ignored_witness:
  "map eraseTypeConditions dogSelectionSet = map eraseTypeConditions catSelectionSet \<and>
   map eraseFragment (Fragments dogDocument) = map eraseFragment (Fragments catDocument) \<and>
   dogSelectionSet \<noteq> catSelectionSet \<and>
   flattenSelectionSet 4 dogSelectionSet dogDocument = flattenSelectionSet 4 catSelectionSet catDocument \<and>
   flattenSelectionSet 4 catSelectionSet catDocument = Some [leaf ''id'', leaf ''name'']"
proof -
  have h1: "map eraseTypeConditions dogSelectionSet = map eraseTypeConditions catSelectionSet"
    by code_simp
  have h2: "map eraseFragment (Fragments dogDocument) = map eraseFragment (Fragments catDocument)"
    by code_simp
  have d: "dogSelectionSet \<noteq> catSelectionSet" by code_simp
  have v: "flattenSelectionSet 4 catSelectionSet catDocument = Some [leaf ''id'', leaf ''name'']"
    by code_simp
  show ?thesis using h1 h2 d v C9_type_conditions_ignored[OF h1 h2, of 4] by simp
qed

text \<open>
  C10. On a document whose fragment reference graph is acyclic the flattening of every
  selection set terminates: some depth of recursion suffices, and every greater depth gives
  the same result. The code has no guard of its own: on the document whose fragment
  \<^verbatim>\<open>Loop\<close> spreads itself no depth suffices.
\<close>

theorem C10_terminates_when_acyclic:
  "(acyclic (fragmentRefs doc) \<longrightarrow> (\<exists>n R. \<forall>k \<ge> n. flattenSelectionSet k S doc = Some R)) \<and>
   (\<forall>n. flattenSelectionSet n [FragmentSpread ''Loop'' ()] loopDocument = None)"
  using flatten_terminates_stable flatten_loop_diverges by blast

theorem C10_terminates_when_acyclic_witness:
  "acyclic (fragmentRefs chainDocument) \<and>
   (\<exists>n R. \<forall>k \<ge> n. flattenSelectionSet k [FragmentSpread ''A'' (), leaf ''name''] chainDocument = Some R) \<and>
   flattenSelectionSet 4 [FragmentSpread ''A'' (), leaf ''name''] chainDocument = Some [leaf ''name'', leaf ''id'']"
proof -
  have h: "acyclic (fragmentRefs chainDocument)" by (rule chainDocument_acyclic)
  have v: "flattenSelectionSet 4 [FragmentSpread ''A'' (), leaf ''name''] chainDocument = Some [leaf ''name'', leaf ''id'']"
    by code_simp
  show ?thesis
    using h v C10_terminates_when_acyclic[of chainDocument "[FragmentSpread ''A'' (), leaf ''name'']"]
    by blast
qed

end
